theory Spec2Isabelle
  imports Complex_Main
begin

section \<open>The circle puzzle of \<^verbatim>\<open>src/script/puzzle.js\<close>\<close>

text \<open>
  The puzzle shows an image cut into concentric circles; each circle is rotated by
  dragging it with the mouse. This theory embeds the controller of
  \<^verbatim>\<open>puzzle.js\<close>: the construction of the circles, the hit test, and the three
  mouse handlers with the state they share.

  Conventions of the embedding.
  \<^item> The records take the type of their Numbers as a parameter. The mouse handlers and
    the state they share are embedded with exact reals: what is proved about them is
    which circle a press selects, which fields a handler writes and the expression that
    a move adds to a rotation, and none of it rests on a law of arithmetic. The hit
    test, \<open>rotateCircle\<close> and the constructor are embedded a second time with the
    IEEE-754 doubles the source computes with, under names that end in \<open>_ieee\<close>: what is
    proved about distances, radii and sums of rotations is proved about those.
  \<^item> An object is a record. The controller's array \<^verbatim>\<open>this.circles\<close> is a list, and a
    reference to one of its circles (\<^verbatim>\<open>this.activeCircle\<close>) is the position of that
    circle in the list, \<open>None\<close> for \<^verbatim>\<open>null\<close>. The array is filled by the constructor
    and never assigned again, and \<^verbatim>\<open>new PUZZLE.PuzzleCircle\<close> occurs nowhere else, so
    every circle object is one cell of the list and a write through the reference is a
    write to that cell.
  \<^item> A handler that dereferences \<^verbatim>\<open>null\<close> throws; it returns \<open>Inl TypeError\<close>.
  \<^item> The handlers receive the cursor position that
    \<^verbatim>\<open>puzzleCanvas.getCursorPosition(event)\<close> returns.
  \<^item> \<^verbatim>\<open>draw()\<close> reads the circles and writes to the canvas only; the pixels of the
    canvas are not part of the state modelled here.
\<close>

subsection \<open>Constants\<close>

definition FULL_ROTATION :: real where
  "FULL_ROTATION = pi * 2"

definition ROTATION_SPEED :: real where
  "ROTATION_SPEED = 50"

subsection \<open>Objects\<close>

record 'n Image =
  src :: string
  width :: 'n
  height :: 'n

record 'n PuzzleCircle =
  x :: 'n
  y :: 'n
  radius :: 'n
  image_ref :: "'n Image"
  rotation :: 'n

record 'n PuzzleCanvas =
  canvas_width :: 'n
  canvas_height :: 'n

definition getWidth :: "'n PuzzleCanvas \<Rightarrow> 'n" where
  "getWidth pc = canvas_width pc"

definition getHeight :: "'n PuzzleCanvas \<Rightarrow> 'n" where
  "getHeight pc = canvas_height pc"

text \<open>\<^verbatim>\<open>PUZZLE.PuzzleCircle.prototype.isInside\<close>.\<close>

definition isInside :: "real PuzzleCircle \<Rightarrow> real \<Rightarrow> real \<Rightarrow> bool" where
  "isInside c px py =
     (let xDist = x c - px;
          yDist = y c - py
      in (xDist * xDist) + (yDist * yDist) < (radius c * radius c))"

subsection \<open>The controller\<close>

text \<open>
  The state of a controller: its properties, and the variable \<^verbatim>\<open>lastCursorX\<close> that
  the handlers close over.
\<close>

record 'n PuzzleController =
  puzzleCanvas :: "'n PuzzleCanvas"
  isDragging :: bool
  activeCircle :: "nat option"
  circles :: "'n PuzzleCircle list"
  lastCursorX :: "'n option"

datatype error = TypeError

text \<open>
  The loop of the constructor. In iteration \<open>i\<close> the array holds \<open>i\<close> circles, so the
  assignment \<^verbatim>\<open>this.circles[i] = ...\<close> extends it by one element. \<open>random i\<close> is the
  value of the call of \<^verbatim>\<open>Math.random()\<close> in iteration \<open>i\<close>.
\<close>

function create_circles ::
  "nat \<Rightarrow> nat \<Rightarrow> real \<Rightarrow> real \<Rightarrow> real \<Rightarrow> real Image \<Rightarrow> (nat \<Rightarrow> real) \<Rightarrow> real \<Rightarrow>
   real PuzzleCircle list \<Rightarrow> real PuzzleCircle list" where
  "create_circles i numCircles centerX centerY radiusDiff img random currRadius cs =
     (if i < numCircles then
        (let rot = random i * FULL_ROTATION;
             c = \<lparr>x = centerX, y = centerY, radius = currRadius, image_ref = img,
                  rotation = rot\<rparr>
         in create_circles (i + 1) numCircles centerX centerY radiusDiff img random
              (currRadius - radiusDiff) (cs @ [c]))
      else cs)"
  by pat_completeness auto
termination
  by (relation "measure (\<lambda>(i, numCircles, _). numCircles - i)") auto

declare create_circles.simps [simp del]

text \<open>
  The constructor, up to the registration of the handlers. When \<open>numCircles\<close> is
  \<open>0\<close> the quotient \<open>radiusDiff\<close> is never used, since the loop does not run.
\<close>

definition new_PuzzleController ::
  "real PuzzleCanvas \<Rightarrow> real Image \<Rightarrow> nat \<Rightarrow> (nat \<Rightarrow> real) \<Rightarrow> real PuzzleController" where
  "new_PuzzleController pc img numCircles random =
     (let canvasWidth = getWidth pc;
          canvasHeight = getHeight pc;
          imageWidth = width img;
          imageHeight = height img;
          maxRadius = min (min (min canvasWidth canvasHeight) imageWidth) imageHeight / 2;
          centerX = canvasWidth / 2;
          centerY = canvasHeight / 2;
          radiusDiff = maxRadius / real numCircles
      in \<lparr>puzzleCanvas = pc, isDragging = False, activeCircle = None,
          circles = create_circles 0 numCircles centerX centerY radiusDiff img random
                      maxRadius [],
          lastCursorX = None\<rparr>)"

text \<open>
  The circle a reference denotes, if any. A position outside the array denotes no
  object.
\<close>

definition deref :: "'n PuzzleController \<Rightarrow> nat option \<Rightarrow> 'n PuzzleCircle option" where
  "deref s r =
     (case r of
        None \<Rightarrow> None
      | Some a \<Rightarrow> if a < length (circles s) then Some (circles s ! a) else None)"

text \<open>
  \<^verbatim>\<open>PUZZLE.PuzzleController.prototype.rotateCircle\<close>: \<^verbatim>\<open>circle.rotation += rotation\<close>,
  then a redraw.
\<close>

definition rotateCircle ::
  "real PuzzleController \<Rightarrow> nat option \<Rightarrow> real \<Rightarrow> error + real PuzzleController" where
  "rotateCircle s circle rot =
     (case deref s circle of
        None \<Rightarrow> Inl TypeError
      | Some c \<Rightarrow>
          Inr (s\<lparr>circles := (circles s)[the circle := c\<lparr>rotation := rotation c + rot\<rparr>]\<rparr>))"

text \<open>
  The loop of the \<^verbatim>\<open>mousedown\<close> handler: \<open>i\<close> runs from the last position down to
  \<open>0\<close>, and the first circle that contains the cursor ends the handler.
\<close>

function mousedown_scan :: "real PuzzleController \<Rightarrow> real \<Rightarrow> real \<Rightarrow> int \<Rightarrow> real PuzzleController" where
  "mousedown_scan s cursorX cursorY i =
     (if i \<ge> 0 then
        (if isInside (circles s ! nat i) cursorX cursorY then
           s\<lparr>activeCircle := Some (nat i), isDragging := True\<rparr>
         else mousedown_scan s cursorX cursorY (i - 1))
      else s)"
  by pat_completeness auto
termination
  by (relation "measure (\<lambda>(_, _, _, i). nat (i + 1))") auto

declare mousedown_scan.simps [simp del]

definition mousedown :: "real PuzzleController \<Rightarrow> real \<Rightarrow> real \<Rightarrow> real PuzzleController" where
  "mousedown s cursorX cursorY =
     mousedown_scan s cursorX cursorY (int (length (circles s)) - 1)"

definition mouseup :: "real PuzzleController \<Rightarrow> real PuzzleController" where
  "mouseup s = s\<lparr>isDragging := False, lastCursorX := None\<rparr>"

definition mousemove ::
  "real PuzzleController \<Rightarrow> real \<Rightarrow> real \<Rightarrow> error + real PuzzleController" where
  "mousemove s cursorX cursorY =
     (if \<not> isDragging s then Inr s
      else
        (case lastCursorX s of
           None \<Rightarrow> Inr (s\<lparr>lastCursorX := Some cursorX\<rparr>)
         | Some lastX \<Rightarrow>
             (let cursorXDiff = cursorX - lastX;
                  rot = - (cursorXDiff / ROTATION_SPEED)
              in (case deref s (activeCircle s) of
                    None \<Rightarrow> Inl TypeError
                  | Some c \<Rightarrow>
                      (let rot' = (if cursorY < y c then FULL_ROTATION - rot else rot)
                       in (case rotateCircle s (activeCircle s) rot' of
                             Inl e \<Rightarrow> Inl e
                           | Inr s' \<Rightarrow> Inr (s'\<lparr>lastCursorX := Some cursorX\<rparr>)))))))"

text \<open>
  The events the canvas delivers, and the state after one of them. An exception that
  leaves a handler is reported by the browser and ends that handler only; at the one
  place where a handler can throw, it has written nothing yet.
\<close>

datatype event = MouseDown real real | MouseMove real real | MouseUp

fun dispatch :: "real PuzzleController \<Rightarrow> event \<Rightarrow> real PuzzleController" where
  "dispatch s (MouseDown cursorX cursorY) = mousedown s cursorX cursorY"
| "dispatch s (MouseMove cursorX cursorY) =
     (case mousemove s cursorX cursorY of Inl e \<Rightarrow> s | Inr s' \<Rightarrow> s')"
| "dispatch s MouseUp = mouseup s"

definition run :: "real PuzzleController \<Rightarrow> event list \<Rightarrow> real PuzzleController" where
  "run s evs = foldl dispatch s evs"

fun is_down :: "event \<Rightarrow> bool" where
  "is_down (MouseDown _ _) = True"
| "is_down _ = False"

text \<open>The fields of a circle other than its rotation.\<close>

definition geometry :: "real PuzzleCircle \<Rightarrow> real \<times> real \<times> real \<times> real Image" where
  "geometry c = (x c, y c, radius c, image_ref c)"

text \<open>Sequencing of two calls of which the first may throw.\<close>

definition and_then :: "error + 'a \<Rightarrow> ('a \<Rightarrow> error + 'b) \<Rightarrow> error + 'b" where
  "and_then r f = (case r of Inl e \<Rightarrow> Inl e | Inr v \<Rightarrow> f v)"

subsection \<open>Scenarios\<close>

text \<open>
  The launch code of \<^verbatim>\<open>puzzle.js\<close> builds a controller with five circles for
  \<^verbatim>\<open>image.jpg\<close>. \<open>demo\<close> is that controller for a canvas and an image of 400 by 400
  pixels, when every call of \<^verbatim>\<open>Math.random()\<close> returns \<open>0\<close>.
\<close>

definition no_scramble :: "nat \<Rightarrow> real" where
  "no_scramble i = 0"

definition demo_canvas :: "real PuzzleCanvas" where
  "demo_canvas = \<lparr>canvas_width = 400, canvas_height = 400\<rparr>"

definition demo_image :: "real Image" where
  "demo_image = \<lparr>src = ''image.jpg'', width = 400, height = 400\<rparr>"

definition demo :: "real PuzzleController" where
  "demo = new_PuzzleController demo_canvas demo_image 5 no_scramble"

text \<open>
  A drag of the outermost circle of \<open>demo\<close>: the button goes down at \<open>(10, 200)\<close>,
  which only circle \<open>0\<close> contains, and the first move caches \<open>x = 100\<close>.
\<close>

definition dragging :: "real PuzzleController" where
  "dragging = run demo [MouseDown 10 200, MouseMove 100 300]"

text \<open>The controller in which the circle at position \<open>a\<close> has turned by \<open>d\<close> radians.\<close>

abbreviation turned :: "real PuzzleController \<Rightarrow> nat \<Rightarrow> real \<Rightarrow> real PuzzleController" where
  "turned s a d \<equiv>
     s\<lparr>circles := (circles s)[a := (circles s ! a)\<lparr>rotation := rotation (circles s ! a) + d\<rparr>]\<rparr>"

section \<open>The arithmetic of the source\<close>

text \<open>
  The definitions above compute with exact reals. The Numbers of JavaScript are
  IEEE-754 binary64 values, and every operation on them rounds its exact result to the
  nearest double, ties to even. Sums of doubles are not associative, and a comparison
  of two rounded values can differ from the comparison of the exact ones, so the
  functions whose properties are properties of the arithmetic are embedded once more,
  below, with that arithmetic.

  A \<open>double\<close> is a finite value, an infinity or \<^verbatim>\<open>NaN\<close>. A finite value is written
  with the real it stands for; \<open>exact v\<close> below says that the real \<open>v\<close> is a double, and
  every arithmetic operation rounds its result to one. The two zeros are one value:
  of the operations used here only a division by zero tells them apart, and the one
  quotient with a divisor that can be zero, \<^verbatim>\<open>maxRadius/numCircles\<close> for no circles, is
  never used.
\<close>

datatype double = Finite real | PosInf | NegInf | NaN

text \<open>The integer nearest to \<open>q\<close>; of two nearest integers, the even one.\<close>

definition rne :: "real \<Rightarrow> int" where
  "rne q =
     (let f = \<lfloor>q\<rfloor>;
          d = q - of_int f
      in if d < 1 / 2 then f
         else if 1 / 2 < d then f + 1
         else if even f then f else f + 1)"

text \<open>
  The double nearest to the real \<open>v\<close>. With \<open>2 powi e \<le> \<bar>v\<bar> < 2 powi (e + 1)\<close> the
  doubles around \<open>v\<close> are the multiples of \<open>2 powi (e - 52)\<close>, and of \<open>2 powi (- 1074)\<close>
  below the normal range; a result of magnitude \<open>2 ^ 1024\<close> or more is an infinity.
\<close>

definition round64 :: "real \<Rightarrow> double" where
  "round64 v =
     (if v = 0 then Finite 0
      else
        (let e = max \<lfloor>log 2 \<bar>v\<bar>\<rfloor> (- 1022);
             ulp = 2 powi (e - 52);
             r = of_int (rne (v / ulp)) * ulp
         in if 2 ^ 1024 \<le> \<bar>r\<bar> then (if 0 < v then PosInf else NegInf) else Finite r))"

text \<open>A real that is a double: rounding leaves it as it is.\<close>

definition exact :: "real \<Rightarrow> bool" where
  "exact v \<longleftrightarrow> round64 v = Finite v"

fun fneg :: "double \<Rightarrow> double" where
  "fneg (Finite a) = Finite (- a)"
| "fneg PosInf = NegInf"
| "fneg NegInf = PosInf"
| "fneg NaN = NaN"

fun fadd :: "double \<Rightarrow> double \<Rightarrow> double" where
  "fadd (Finite a) (Finite b) = round64 (a + b)"
| "fadd NaN _ = NaN"
| "fadd _ NaN = NaN"
| "fadd PosInf NegInf = NaN"
| "fadd NegInf PosInf = NaN"
| "fadd PosInf _ = PosInf"
| "fadd _ PosInf = PosInf"
| "fadd NegInf _ = NegInf"
| "fadd _ NegInf = NegInf"

definition fsub :: "double \<Rightarrow> double \<Rightarrow> double" where
  "fsub a b = fadd a (fneg b)"

fun fmul :: "double \<Rightarrow> double \<Rightarrow> double" where
  "fmul (Finite a) (Finite b) = round64 (a * b)"
| "fmul NaN _ = NaN"
| "fmul _ NaN = NaN"
| "fmul PosInf (Finite b) = (if b = 0 then NaN else if 0 < b then PosInf else NegInf)"
| "fmul NegInf (Finite b) = (if b = 0 then NaN else if 0 < b then NegInf else PosInf)"
| "fmul (Finite a) PosInf = (if a = 0 then NaN else if 0 < a then PosInf else NegInf)"
| "fmul (Finite a) NegInf = (if a = 0 then NaN else if 0 < a then NegInf else PosInf)"
| "fmul PosInf PosInf = PosInf"
| "fmul PosInf NegInf = NegInf"
| "fmul NegInf PosInf = NegInf"
| "fmul NegInf NegInf = PosInf"

fun fdiv :: "double \<Rightarrow> double \<Rightarrow> double" where
  "fdiv (Finite a) (Finite b) =
     (if b = 0 then (if a = 0 then NaN else if 0 < a then PosInf else NegInf)
      else round64 (a / b))"
| "fdiv NaN _ = NaN"
| "fdiv _ NaN = NaN"
| "fdiv (Finite a) _ = Finite 0"
| "fdiv PosInf (Finite b) = (if 0 \<le> b then PosInf else NegInf)"
| "fdiv NegInf (Finite b) = (if 0 \<le> b then NegInf else PosInf)"
| "fdiv _ _ = NaN"

text \<open>The comparison \<^verbatim>\<open><\<close>: false when an operand is \<^verbatim>\<open>NaN\<close>.\<close>

fun flt :: "double \<Rightarrow> double \<Rightarrow> bool" where
  "flt (Finite a) (Finite b) = (a < b)"
| "flt NaN _ = False"
| "flt _ NaN = False"
| "flt PosInf _ = False"
| "flt _ NegInf = False"
| "flt _ _ = True"

text \<open>\<^verbatim>\<open>Math.min\<close> of two Numbers: \<^verbatim>\<open>NaN\<close> when an argument is \<^verbatim>\<open>NaN\<close>.\<close>

fun fmin :: "double \<Rightarrow> double \<Rightarrow> double" where
  "fmin NaN _ = NaN"
| "fmin _ NaN = NaN"
| "fmin a b = (if flt b a then b else a)"

text \<open>\<^verbatim>\<open>Math.PI\<close>, the double nearest to \<open>pi\<close>, and the constant \<^verbatim>\<open>FULL_ROTATION\<close>.\<close>

definition Math_PI :: double where
  "Math_PI = Finite (884279719003555 / 2 ^ 48)"

definition FULL_ROTATION_ieee :: double where
  "FULL_ROTATION_ieee = fmul Math_PI (Finite 2)"

subsection \<open>The hit test, the rotation and the constructor on doubles\<close>

definition isInside_ieee :: "double PuzzleCircle \<Rightarrow> double \<Rightarrow> double \<Rightarrow> bool" where
  "isInside_ieee c px py =
     (let xDist = fsub (x c) px;
          yDist = fsub (y c) py
      in flt (fadd (fmul xDist xDist) (fmul yDist yDist)) (fmul (radius c) (radius c)))"

definition rotateCircle_ieee ::
  "double PuzzleController \<Rightarrow> nat option \<Rightarrow> double \<Rightarrow> error + double PuzzleController" where
  "rotateCircle_ieee s circle rot =
     (case deref s circle of
        None \<Rightarrow> Inl TypeError
      | Some c \<Rightarrow>
          Inr (s\<lparr>circles := (circles s)[the circle := c\<lparr>rotation := fadd (rotation c) rot\<rparr>]\<rparr>))"

text \<open>Two calls of \<open>rotateCircle_ieee\<close> on the same circle, one after the other.\<close>

definition rotate_twice_ieee ::
  "double PuzzleController \<Rightarrow> nat option \<Rightarrow> double \<Rightarrow> double \<Rightarrow> error + double PuzzleController"
  where
  "rotate_twice_ieee s circle rot1 rot2 =
     and_then (rotateCircle_ieee s circle rot1) (\<lambda>s'. rotateCircle_ieee s' circle rot2)"

function create_circles_ieee ::
  "nat \<Rightarrow> nat \<Rightarrow> double \<Rightarrow> double \<Rightarrow> double \<Rightarrow> double Image \<Rightarrow> (nat \<Rightarrow> double) \<Rightarrow> double \<Rightarrow>
   double PuzzleCircle list \<Rightarrow> double PuzzleCircle list" where
  "create_circles_ieee i numCircles centerX centerY radiusDiff img random currRadius cs =
     (if i < numCircles then
        (let rot = fmul (random i) FULL_ROTATION_ieee;
             c = \<lparr>x = centerX, y = centerY, radius = currRadius, image_ref = img,
                  rotation = rot\<rparr>
         in create_circles_ieee (i + 1) numCircles centerX centerY radiusDiff img random
              (fsub currRadius radiusDiff) (cs @ [c]))
      else cs)"
  by pat_completeness auto
termination
  by (relation "measure (\<lambda>(i, numCircles, _). numCircles - i)") auto

declare create_circles_ieee.simps [simp del]

text \<open>
  The number of circles is a whole number, as the loop counter is; as a Number it is
  \<open>Finite (real numCircles)\<close>.
\<close>

definition new_PuzzleController_ieee ::
  "double PuzzleCanvas \<Rightarrow> double Image \<Rightarrow> nat \<Rightarrow> (nat \<Rightarrow> double) \<Rightarrow> double PuzzleController"
  where
  "new_PuzzleController_ieee pc img numCircles random =
     (let canvasWidth = getWidth pc;
          canvasHeight = getHeight pc;
          imageWidth = width img;
          imageHeight = height img;
          maxRadius =
            fdiv (fmin (fmin (fmin canvasWidth canvasHeight) imageWidth) imageHeight) (Finite 2);
          centerX = fdiv canvasWidth (Finite 2);
          centerY = fdiv canvasHeight (Finite 2);
          radiusDiff = fdiv maxRadius (Finite (real numCircles))
      in \<lparr>puzzleCanvas = pc, isDragging = False, activeCircle = None,
          circles = create_circles_ieee 0 numCircles centerX centerY radiusDiff img random
                      maxRadius [],
          lastCursorX = None\<rparr>)"

subsection \<open>Scenarios on doubles\<close>

text \<open>The controllers for a canvas and an image of 400 by 400 pixels, unscrambled.\<close>

definition no_scramble_ieee :: "nat \<Rightarrow> double" where
  "no_scramble_ieee i = Finite 0"

definition demo_canvas_ieee :: "double PuzzleCanvas" where
  "demo_canvas_ieee = \<lparr>canvas_width = Finite 400, canvas_height = Finite 400\<rparr>"

definition demo_image_ieee :: "double Image" where
  "demo_image_ieee = \<lparr>src = ''image.jpg'', width = Finite 400, height = Finite 400\<rparr>"

definition demo_ieee :: "double PuzzleController" where
  "demo_ieee = new_PuzzleController_ieee demo_canvas_ieee demo_image_ieee 5 no_scramble_ieee"

definition six_ieee :: "double PuzzleController" where
  "six_ieee = new_PuzzleController_ieee demo_canvas_ieee demo_image_ieee 6 no_scramble_ieee"

text \<open>Two circles on a canvas of width \<open>0\<close>.\<close>

definition flat_canvas_ieee :: "double PuzzleCanvas" where
  "flat_canvas_ieee = \<lparr>canvas_width = Finite 0, canvas_height = Finite 400\<rparr>"

definition flat_ieee :: "double PuzzleController" where
  "flat_ieee = new_PuzzleController_ieee flat_canvas_ieee demo_image_ieee 2 no_scramble_ieee"

text \<open>
  The doubles that JavaScript writes \<^verbatim>\<open>0.1\<close>, \<^verbatim>\<open>0.2\<close> and \<^verbatim>\<open>0.3\<close>, and \<open>demo_ieee\<close> with
  its outermost circle at rotation \<^verbatim>\<open>0.1\<close> and at rotation \<^verbatim>\<open>0.2\<close>. A drag from \<open>x = 100\<close> to
  \<open>95\<close> below the centre turns a circle by \<^verbatim>\<open>0.1\<close>, one to \<open>90\<close> by \<^verbatim>\<open>0.2\<close>, one to \<open>85\<close> by
  \<^verbatim>\<open>0.3\<close>.
\<close>

definition tenth :: real where
  "tenth = 3602879701896397 / 2 ^ 55"

definition fifth :: real where
  "fifth = 3602879701896397 / 2 ^ 54"

definition three_tenths :: real where
  "three_tenths = 5404319552844595 / 2 ^ 54"

definition turned_tenth :: "double PuzzleController" where
  "turned_tenth =
     demo_ieee\<lparr>circles := (circles demo_ieee)[0 := (circles demo_ieee ! 0)\<lparr>rotation := Finite tenth\<rparr>]\<rparr>"

definition turned_fifth :: "double PuzzleController" where
  "turned_fifth =
     demo_ieee\<lparr>circles := (circles demo_ieee)[0 := (circles demo_ieee ! 0)\<lparr>rotation := Finite fifth\<rparr>]\<rparr>"

text \<open>
  The outermost circle of that puzzle, and a circle of radius \<open>0\<close> in its place.
\<close>

definition outer_ring :: "double PuzzleCircle" where
  "outer_ring =
     \<lparr>x = Finite 200, y = Finite 200, radius = Finite 200, image_ref = demo_image_ieee,
      rotation = Finite 0\<rparr>"

definition point_ring :: "double PuzzleCircle" where
  "point_ring = outer_ring\<lparr>radius := Finite 0\<rparr>"

text \<open>
  A circle of radius \<open>2 ^ 27 + 1\<close> about the origin; the point \<open>(2 ^ 27, 2 ^ 14)\<close> is closer
  to the origin than that.
\<close>

definition big_circle :: "double PuzzleCircle" where
  "big_circle =
     \<lparr>x = Finite 0, y = Finite 0, radius = Finite (2 ^ 27 + 1), image_ref = demo_image_ieee,
      rotation = Finite 0\<rparr>"

section \<open>The hit test\<close>

lemma isInside_iff:
  "isInside c px py \<longleftrightarrow> (px - x c)\<^sup>2 + (py - y c)\<^sup>2 < (radius c)\<^sup>2"
  by (simp add: isInside_def Let_def power2_eq_square algebra_simps)

section \<open>The scan of the mousedown handler\<close>

text \<open>
  The loop leaves the state as it is when no circle from position \<open>i\<close> down contains the
  cursor, and otherwise selects the circle at the highest such position.
\<close>

lemma mousedown_scan_miss:
  "\<forall>j. 0 \<le> j \<and> j \<le> i \<longrightarrow> \<not> isInside (circles s ! nat j) px py \<Longrightarrow>
   mousedown_scan s px py i = s"
proof (induction s px py i rule: mousedown_scan.induct)
  case (1 s cursorX cursorY i)
  show ?case
  proof (cases "i \<ge> 0")
    case True
    with "1.prems" have miss: "\<not> isInside (circles s ! nat i) cursorX cursorY" by simp
    have "mousedown_scan s cursorX cursorY (i - 1) = s"
      using "1.IH" [OF True miss] "1.prems" by simp
    with True miss show ?thesis by (subst mousedown_scan.simps) simp
  next
    case False
    then show ?thesis by (subst mousedown_scan.simps) simp
  qed
qed

lemma mousedown_scan_hit:
  "0 \<le> k \<Longrightarrow> k \<le> i \<Longrightarrow> isInside (circles s ! nat k) px py \<Longrightarrow>
   \<forall>m. k < m \<and> m \<le> i \<longrightarrow> \<not> isInside (circles s ! nat m) px py \<Longrightarrow>
   mousedown_scan s px py i = s\<lparr>activeCircle := Some (nat k), isDragging := True\<rparr>"
proof (induction s px py i rule: mousedown_scan.induct)
  case (1 s cursorX cursorY i)
  from "1.prems" have nonneg: "i \<ge> 0" by simp
  show ?case
  proof (cases "k = i")
    case True
    with "1.prems" nonneg show ?thesis by (subst mousedown_scan.simps) simp
  next
    case False
    with "1.prems" have lt: "k < i" by simp
    with "1.prems" have miss: "\<not> isInside (circles s ! nat i) cursorX cursorY" by simp
    have "mousedown_scan s cursorX cursorY (i - 1) =
            s\<lparr>activeCircle := Some (nat k), isDragging := True\<rparr>"
      using "1.IH" [OF nonneg miss] "1.prems" lt by simp
    with nonneg miss show ?thesis by (subst mousedown_scan.simps) simp
  qed
qed

lemma innermost_exists:
  fixes P :: "nat \<Rightarrow> bool"
  shows "j < n \<Longrightarrow> P j \<Longrightarrow>
         \<exists>k. j \<le> k \<and> k < n \<and> P k \<and> (\<forall>m. k < m \<and> m < n \<longrightarrow> \<not> P m)"
proof (induction n)
  case 0
  then show ?case by simp
next
  case (Suc n)
  show ?case
  proof (cases "P n")
    case True
    with Suc.prems show ?thesis by (intro exI [of _ n]) auto
  next
    case False
    with Suc.prems have "j < n" by (cases "j = n") auto
    from Suc.IH [OF this Suc.prems(2)] obtain k where
      k: "j \<le> k" "k < n" "P k" "\<forall>m. k < m \<and> m < n \<longrightarrow> \<not> P m" by blast
    have "\<forall>m. k < m \<and> m < Suc n \<longrightarrow> \<not> P m"
      using k(4) False by (auto simp: less_Suc_eq)
    with k show ?thesis by (intro exI [of _ k]) auto
  qed
qed

lemma mousedown_innermost:
  assumes "k < length (circles s)" "isInside (circles s ! k) px py"
    and "\<forall>m. k < m \<and> m < length (circles s) \<longrightarrow> \<not> isInside (circles s ! m) px py"
  shows "mousedown s px py = s\<lparr>activeCircle := Some k, isDragging := True\<rparr>"
proof -
  have "mousedown_scan s px py (int (length (circles s)) - 1) =
          s\<lparr>activeCircle := Some (nat (int k)), isDragging := True\<rparr>"
  proof (rule mousedown_scan_hit)
    show "\<forall>m. int k < m \<and> m \<le> int (length (circles s)) - 1 \<longrightarrow>
            \<not> isInside (circles s ! nat m) px py"
    proof (intro allI impI)
      fix m :: int
      assume "int k < m \<and> m \<le> int (length (circles s)) - 1"
      then have "k < nat m \<and> nat m < length (circles s)" by auto
      with assms(3) show "\<not> isInside (circles s ! nat m) px py" by blast
    qed
  qed (use assms in auto)
  then show ?thesis by (simp add: mousedown_def)
qed

lemma mousedown_miss:
  assumes "\<forall>i < length (circles s). \<not> isInside (circles s ! i) px py"
  shows "mousedown s px py = s"
proof -
  have "mousedown_scan s px py (int (length (circles s)) - 1) = s"
  proof (rule mousedown_scan_miss, intro allI impI)
    fix j :: int
    assume "0 \<le> j \<and> j \<le> int (length (circles s)) - 1"
    then have "nat j < length (circles s)" by auto
    with assms show "\<not> isInside (circles s ! nat j) px py" by blast
  qed
  then show ?thesis by (simp add: mousedown_def)
qed

section \<open>Bounds for \<open>pi\<close>\<close>









section \<open>The constructor\<close>

text \<open>
  The loop appends, for every \<open>k\<close> from \<open>i\<close> up to \<open>numCircles\<close>, a circle whose radius
  is the current radius less \<open>k - i\<close> steps.
\<close>

lemma create_circles_eq:
  "create_circles i n cx cy d img rnd r cs =
     cs @ map (\<lambda>k. \<lparr>x = cx, y = cy, radius = r - real (k - i) * d, image_ref = img,
                     rotation = rnd k * FULL_ROTATION\<rparr>) [i..<n]"
proof (induction i n cx cy d img rnd r cs rule: create_circles.induct)
  case (1 i n cx cy d img rnd r cs)
  show ?case
  proof (cases "i < n")
    case True
    have "map (\<lambda>k. \<lparr>x = cx, y = cy, radius = r - d - real (k - (i + 1)) * d, image_ref = img,
                     rotation = rnd k * FULL_ROTATION\<rparr>) [i + 1..<n] =
          map (\<lambda>k. \<lparr>x = cx, y = cy, radius = r - real (k - i) * d, image_ref = img,
                     rotation = rnd k * FULL_ROTATION\<rparr>) [i + 1..<n]"
      by (rule map_cong) (auto simp: algebra_simps)
    with True "1.IH" [OF True refl refl] show ?thesis
      by (subst create_circles.simps) (simp add: Let_def upt_conv_Cons)
  next
    case False
    then show ?thesis by (subst create_circles.simps) simp
  qed
qed

lemma circles_new:
  "circles (new_PuzzleController pc img n rnd) =
     map (\<lambda>k. \<lparr>x = getWidth pc / 2, y = getHeight pc / 2,
               radius = min (min (min (getWidth pc) (getHeight pc)) (width img)) (height img) / 2
                 - real k * (min (min (min (getWidth pc) (getHeight pc)) (width img)) (height img) / 2
                     / real n),
               image_ref = img, rotation = rnd k * FULL_ROTATION\<rparr>) [0..<n]"
  by (simp add: new_PuzzleController_def Let_def create_circles_eq)

lemma demo_circles:
  "circles demo =
     [\<lparr>x = 200, y = 200, radius = 200, image_ref = demo_image, rotation = 0\<rparr>,
      \<lparr>x = 200, y = 200, radius = 160, image_ref = demo_image, rotation = 0\<rparr>,
      \<lparr>x = 200, y = 200, radius = 120, image_ref = demo_image, rotation = 0\<rparr>,
      \<lparr>x = 200, y = 200, radius = 80, image_ref = demo_image, rotation = 0\<rparr>,
      \<lparr>x = 200, y = 200, radius = 40, image_ref = demo_image, rotation = 0\<rparr>]"
  by (simp add: demo_def new_PuzzleController_def Let_def create_circles.simps getWidth_def
      getHeight_def demo_canvas_def no_scramble_def)
     (simp add: demo_image_def)

section \<open>The handlers\<close>

text \<open>
  What each handler returns, by the branch it takes, and what every branch preserves.
\<close>

lemma mousedown_scan_cases:
  "mousedown_scan s px py i = s \<or>
   (\<exists>k. mousedown_scan s px py i = s\<lparr>activeCircle := Some k, isDragging := True\<rparr> \<and>
        int k \<le> i)"
proof (induction s px py i rule: mousedown_scan.induct)
  case (1 s cursorX cursorY i)
  show ?case
  proof (cases "i \<ge> 0")
    case nonneg: True
    show ?thesis
    proof (cases "isInside (circles s ! nat i) cursorX cursorY")
      case True
      with nonneg have "mousedown_scan s cursorX cursorY i =
          s\<lparr>activeCircle := Some (nat i), isDragging := True\<rparr>"
        by (subst mousedown_scan.simps) simp
      with nonneg show ?thesis by auto
    next
      case False
      with nonneg have "mousedown_scan s cursorX cursorY i =
          mousedown_scan s cursorX cursorY (i - 1)"
        by (subst mousedown_scan.simps) simp
      with "1.IH" [OF nonneg False] show ?thesis by auto
    qed
  next
    case False
    then show ?thesis by (subst mousedown_scan.simps) simp
  qed
qed

lemma mousedown_cases:
  "mousedown s px py = s \<or>
   (\<exists>k < length (circles s). mousedown s px py = s\<lparr>activeCircle := Some k, isDragging := True\<rparr>)"
  using mousedown_scan_cases [of s px py "int (length (circles s)) - 1"]
  by (auto simp: mousedown_def)

lemma mousedown_circles [simp]: "circles (mousedown s px py) = circles s"
  using mousedown_cases [of s px py] by auto

lemma mousedown_lastCursorX [simp]: "lastCursorX (mousedown s px py) = lastCursorX s"
  using mousedown_cases [of s px py] by auto

lemma mousemove_idle: "\<not> isDragging s \<Longrightarrow> mousemove s cx cy = Inr s"
  by (simp add: mousemove_def)

lemma mousemove_first:
  "isDragging s \<Longrightarrow> lastCursorX s = None \<Longrightarrow>
   mousemove s cx cy = Inr (s\<lparr>lastCursorX := Some cx\<rparr>)"
  by (simp add: mousemove_def)

lemma mousemove_drag:
  assumes "isDragging s" "lastCursorX s = Some lastX" "activeCircle s = Some a"
    "a < length (circles s)"
  shows "mousemove s cx cy =
    Inr (s\<lparr>circles := (circles s)[a := (circles s ! a)\<lparr>rotation := rotation (circles s ! a) +
              (if cy < y (circles s ! a) then FULL_ROTATION - (- ((cx - lastX) / ROTATION_SPEED))
               else - ((cx - lastX) / ROTATION_SPEED))\<rparr>],
           lastCursorX := Some cx\<rparr>)"
  using assms by (simp add: mousemove_def rotateCircle_def deref_def Let_def)

lemma geometry_update:
  "a < length cs \<Longrightarrow> map geometry (cs[a := (cs ! a)\<lparr>rotation := r\<rparr>]) = map geometry cs"
  by (simp add: list_eq_iff_nth_eq nth_list_update geometry_def)

lemma mousemove_cases:
  "mousemove s cx cy = Inl TypeError \<or>
   (\<exists>s'. mousemove s cx cy = Inr s' \<and> isDragging s' = isDragging s \<and>
      activeCircle s' = activeCircle s \<and>
      map geometry (circles s') = map geometry (circles s) \<and>
      (if isDragging s then lastCursorX s' = Some cx else s' = s))"
proof (cases "isDragging s")
  case False
  then show ?thesis by (simp add: mousemove_idle)
next
  case drag: True
  show ?thesis
  proof (cases "lastCursorX s")
    case None
    with drag show ?thesis by (simp add: mousemove_first)
  next
    case (Some lastX)
    show ?thesis
    proof (cases "deref s (activeCircle s)")
      case None
      with drag Some show ?thesis by (simp add: mousemove_def Let_def)
    next
      case (Some c)
      then obtain a where a: "activeCircle s = Some a" "a < length (circles s)"
        by (auto simp: deref_def split: option.splits if_splits)
      from mousemove_drag [OF drag \<open>lastCursorX s = Some lastX\<close> a, of cx cy] drag a
      show ?thesis by (simp add: geometry_update)
    qed
  qed
qed

lemma dispatch_geometry: "map geometry (circles (dispatch s e)) = map geometry (circles s)"
proof (cases e)
  case (MouseMove cx cy)
  with mousemove_cases [of s cx cy] show ?thesis by (auto split: if_splits)
qed (simp_all add: mouseup_def)

lemma run_geometry: "map geometry (circles (run s evs)) = map geometry (circles s)"
  unfolding run_def by (induction evs arbitrary: s) (simp_all add: dispatch_geometry)

lemma dispatch_idle_no_cache:
  assumes "\<not> isDragging s \<longrightarrow> lastCursorX s = None"
  shows "\<not> isDragging (dispatch s e) \<longrightarrow> lastCursorX (dispatch s e) = None"
proof (cases e)
  case (MouseDown px py)
  with mousedown_cases [of s px py] assms show ?thesis by auto
next
  case (MouseMove cx cy)
  with mousemove_cases [of s cx cy] assms show ?thesis by (auto split: if_splits)
next
  case MouseUp
  then show ?thesis by (simp add: mouseup_def)
qed

lemma run_snoc: "run s (evs @ [e]) = dispatch (run s evs) e"
  by (simp add: run_def)

lemma run_idle_no_cache:
  assumes "\<not> isDragging s \<longrightarrow> lastCursorX s = None"
  shows "\<not> isDragging (run s evs) \<longrightarrow> lastCursorX (run s evs) = None"
proof (induction evs rule: rev_induct)
  case Nil
  from assms show ?case by (simp add: run_def)
next
  case (snoc e evs)
  show ?case unfolding run_snoc by (rule dispatch_idle_no_cache) (rule snoc)
qed

lemma new_idle: "isDragging (new_PuzzleController pc img n rnd) = False"
  "lastCursorX (new_PuzzleController pc img n rnd) = None"
  "activeCircle (new_PuzzleController pc img n rnd) = None"
  by (simp_all add: new_PuzzleController_def Let_def)

lemma dispatch_active:
  assumes "isDragging s \<longrightarrow> (\<exists>a < length (circles s). activeCircle s = Some a)"
  shows "isDragging (dispatch s e) \<longrightarrow>
    (\<exists>a < length (circles (dispatch s e)). activeCircle (dispatch s e) = Some a)"
proof (cases e)
  case (MouseDown px py)
  with mousedown_cases [of s px py] assms show ?thesis by auto
next
  case (MouseMove cx cy)
  have len: "length (circles s') = length (circles s)"
    if "map geometry (circles s') = map geometry (circles s)" for s' :: "real PuzzleController"
    using that by (rule map_eq_imp_length_eq)
  from MouseMove mousemove_cases [of s cx cy] assms show ?thesis
    by (auto split: if_splits dest: len)
next
  case MouseUp
  then show ?thesis by (simp add: mouseup_def)
qed

lemma rotateCircle_Some:
  "a < length (circles s) \<Longrightarrow> rotateCircle s (Some a) d = Inr (turned s a d)"
  by (simp add: rotateCircle_def deref_def)

lemma rotateCircle_throws:
  "deref s r = None \<Longrightarrow> rotateCircle s r d = Inl TypeError"
  by (simp add: rotateCircle_def)

section \<open>Sequences of events\<close>

text \<open>
  Properties that every handler preserves hold after every sequence of events; the
  scenarios are evaluated once here.
\<close>

lemma run_active:
  assumes "isDragging s \<longrightarrow> (\<exists>a < length (circles s). activeCircle s = Some a)"
  shows "isDragging (run s evs) \<longrightarrow>
    (\<exists>a < length (circles (run s evs)). activeCircle (run s evs) = Some a)"
proof (induction evs rule: rev_induct)
  case Nil
  from assms show ?case by (simp add: run_def)
next
  case (snoc e evs)
  show ?case unfolding run_snoc by (rule dispatch_active) (rule snoc)
qed

lemma run_no_down:
  "\<forall>e \<in> set evs. \<not> is_down e \<Longrightarrow> run (mouseup s) evs = mouseup s"
proof (induction evs rule: rev_induct)
  case Nil
  show ?case by (simp add: run_def)
next
  case (snoc e evs)
  then have ih: "run (mouseup s) evs = mouseup s" and e: "\<not> is_down e" by simp_all
  have "dispatch (mouseup s) e = mouseup s"
  proof (cases e)
    case (MouseMove cx cy)
    then show ?thesis by (simp add: mousemove_idle mouseup_def)
  qed (use e in \<open>simp_all add: mouseup_def\<close>)
  with ih show ?case by (simp add: run_snoc)
qed

lemma demo_hits:
  "isInside (circles demo ! 0) 10 200" "\<not> isInside (circles demo ! 1) 10 200"
  "\<not> isInside (circles demo ! 2) 10 200" "\<not> isInside (circles demo ! 3) 10 200"
  "\<not> isInside (circles demo ! 4) 10 200"
  by (simp_all add: demo_circles isInside_def)

lemma demo_idle: "isDragging demo = False" "lastCursorX demo = None"
  by (simp_all add: demo_def new_idle)

lemma less_5_cases: "m < 5 \<longleftrightarrow> m = 0 \<or> m = 1 \<or> m = 2 \<or> m = 3 \<or> m = (4::nat)"
  by auto

lemma demo_length: "length (circles demo) = 5"
  by (simp add: demo_circles)

lemma demo_down: "mousedown demo 10 200 = demo\<lparr>activeCircle := Some 0, isDragging := True\<rparr>"
proof (rule mousedown_innermost)
  show "0 < length (circles demo)" by (simp add: demo_length)
  show "isInside (circles demo ! 0) 10 200" by (rule demo_hits)
  show "\<forall>m. 0 < m \<and> m < length (circles demo) \<longrightarrow> \<not> isInside (circles demo ! m) 10 200"
    using demo_hits by (auto simp: demo_length less_5_cases)
qed

lemma dragging_eq:
  "dragging = demo\<lparr>activeCircle := Some 0, isDragging := True, lastCursorX := Some 100\<rparr>"
  by (simp add: dragging_def run_def demo_down mousemove_first demo_idle)

lemma dragging_fields:
  "isDragging dragging" "lastCursorX dragging = Some 100" "activeCircle dragging = Some 0"
  "circles dragging = circles demo"
  by (simp_all add: dragging_eq)

lemma demo_centre_hits:
  "isInside (circles demo ! 0) 200 200" "isInside (circles demo ! 4) 200 200"
  by (simp_all add: demo_circles isInside_def)

lemma demo_far:
  "\<not> isInside (circles demo ! 0) 500 500" "\<not> isInside (circles demo ! 1) 500 500"
  "\<not> isInside (circles demo ! 2) 500 500" "\<not> isInside (circles demo ! 3) 500 500"
  "\<not> isInside (circles demo ! 4) 500 500"
  by (simp_all add: demo_circles isInside_def)

lemma demo_misses:
  "\<forall>i < length (circles demo). \<not> isInside (circles demo ! i) 500 500"
  using demo_far by (auto simp: demo_length less_5_cases)

lemma run_append: "run s (evs @ evs') = run (run s evs) evs'"
  by (simp add: run_def)

lemma run_Nil: "run s [] = s"
  by (simp add: run_def)

lemma run_new_idle_no_cache:
  "\<not> isDragging (run (new_PuzzleController pc img n rnd) evs) \<Longrightarrow>
   lastCursorX (run (new_PuzzleController pc img n rnd) evs) = None"
  using run_idle_no_cache [of "new_PuzzleController pc img n rnd" evs] by (simp add: new_idle)

lemma down_then_move:
  assumes "lastCursorX s = None"
  shows "circles (run s [MouseDown px py, MouseMove cx cy]) = circles s \<and>
         (isDragging (mousedown s px py) \<longrightarrow>
            lastCursorX (run s [MouseDown px py, MouseMove cx cy]) = Some cx)"
proof (cases "isDragging (mousedown s px py)")
  case True
  with assms have "mousemove (mousedown s px py) cx cy =
      Inr ((mousedown s px py)\<lparr>lastCursorX := Some cx\<rparr>)"
    by (intro mousemove_first) simp_all
  then show ?thesis by (simp add: run_def)
next
  case False
  then have "mousemove (mousedown s px py) cx cy = Inr (mousedown s px py)"
    by (rule mousemove_idle)
  with False show ?thesis by (simp add: run_def)
qed

lemma drag_and_release:
  "run demo [MouseDown 10 200, MouseMove 100 300, MouseUp] = mouseup dragging"
  using run_append [of demo "[MouseDown 10 200, MouseMove 100 300]" "[MouseUp]"]
  by (simp add: dragging_def run_def)

text \<open>
  From the state the constructor builds, no sequence of events leads to a state in which
  \<open>mousemove\<close> dereferences \<^verbatim>\<open>null\<close>.
\<close>

lemma run_never_throws:
  "mousemove (run (new_PuzzleController pc img n rnd) evs) cx cy \<noteq> Inl TypeError"
proof -
  let ?s = "run (new_PuzzleController pc img n rnd) evs"
  have active: "isDragging ?s \<longrightarrow> (\<exists>a < length (circles ?s). activeCircle ?s = Some a)"
    by (rule run_active) (simp add: new_idle)
  show ?thesis
  proof (cases "isDragging ?s")
    case False
    then show ?thesis by (simp add: mousemove_idle)
  next
    case True
    with active obtain a where a: "a < length (circles ?s)" "activeCircle ?s = Some a" by blast
    show ?thesis
    proof (cases "lastCursorX ?s")
      case None
      with True show ?thesis by (simp add: mousemove_first)
    next
      case (Some lastX)
      from mousemove_drag [OF True Some a(2,1), of cx cy] show ?thesis by simp
    qed
  qed
qed

section \<open>Rounding to the nearest double\<close>

text \<open>
  \<open>round64\<close> is evaluated at a real once the power of two below it is known. Whole
  numbers up to \<open>2 ^ 53\<close> are doubles, and no real that is not negative rounds to a
  negative double.
\<close>

lemma two_powr_int: "(2::real) powr real_of_int k = 2 powi k"
  by (simp add: powr_real_of_int power_int_def power_one_over inverse_eq_divide)

lemma floor_log2_eq:
  assumes "2 powi e \<le> \<bar>v\<bar>" "\<bar>v\<bar> < 2 powi (e + 1)"
  shows "\<lfloor>log 2 \<bar>v\<bar>\<rfloor> = e"
proof -
  have "(0::real) < 2 powi e" by simp
  with assms(1) have pos: "0 < \<bar>v\<bar>" by linarith
  have "2 powr real_of_int e \<le> \<bar>v\<bar> \<and> \<bar>v\<bar> < 2 powr (real_of_int e + 1)"
    using assms two_powr_int [of e] two_powr_int [of "e + 1"] by simp
  with pos show ?thesis by (simp add: floor_log_eq_powr_iff)
qed

lemma round64_at:
  assumes "2 powi e \<le> \<bar>v\<bar>" "\<bar>v\<bar> < 2 powi (e + 1)" "- 1022 \<le> e"
    and "r = real_of_int (rne (v / 2 powi (e - 52))) * 2 powi (e - 52)"
  shows "round64 v =
    (if 2 ^ 1024 \<le> \<bar>r\<bar> then (if 0 < v then PosInf else NegInf) else Finite r)"
proof -
  have "(0::real) < 2 powi e" by simp
  with assms(1) have "0 < \<bar>v\<bar>" by linarith
  then have "v \<noteq> 0" by simp
  moreover have "max \<lfloor>log 2 \<bar>v\<bar>\<rfloor> (- 1022) = e"
    using floor_log2_eq [OF assms(1,2)] assms(3) by simp
  ultimately show ?thesis
    by (simp add: round64_def Let_def assms(4))
qed

lemma rne_of_int [simp]: "rne (of_int m) = m"
  by (simp add: rne_def)

lemma rne_nonneg: "0 \<le> q \<Longrightarrow> 0 \<le> rne q"
  by (simp add: rne_def Let_def)

text \<open>Rounding a real that is not negative gives no negative double.\<close>

lemma round64_nonneg:
  assumes "0 \<le> v"
  shows "round64 v = PosInf \<or> (\<exists>r\<ge>0. round64 v = Finite r)"
proof -
  have scaled: "0 \<le> real_of_int (rne (v / 2 powi k)) * 2 powi k" for k
  proof -
    have u: "(0::real) < 2 powi k" by simp
    with assms have "0 \<le> v / 2 powi k" by simp
    then have "0 \<le> rne (v / 2 powi k)" by (rule rne_nonneg)
    with u show ?thesis by simp
  qed
  show ?thesis
  proof (cases "v = 0")
    case True
    then show ?thesis by (simp add: round64_def)
  next
    case False
    with assms have "0 < v" by simp
    then show ?thesis by (simp add: round64_def Let_def scaled)
  qed
qed

text \<open>Every whole number up to \<open>2 ^ 53\<close> in magnitude is a double.\<close>

lemma exact_of_int:
  assumes "\<bar>n\<bar> \<le> 2 ^ 53"
  shows "exact (of_int n)"
proof (cases "n = 0")
  case True
  then show ?thesis by (simp add: exact_def round64_def)
next
  case False
  define v :: real where "v = of_int n"
  define e where "e = \<lfloor>log 2 \<bar>v\<bar>\<rfloor>"
  from False have one: "1 \<le> \<bar>v\<bar>" by (simp add: v_def)
  then have pos: "0 < \<bar>v\<bar>" by linarith
  from assms have top: "\<bar>v\<bar> \<le> 2 ^ 53"
    unfolding v_def by (metis of_int_abs of_int_le_numeral_power_cancel_iff)
  have bounds: "2 powi e \<le> \<bar>v\<bar>" "\<bar>v\<bar> < 2 powi (e + 1)"
    using floor_log_eq_powr_iff [of "\<bar>v\<bar>" 2 e] pos two_powr_int [of e] two_powr_int [of "e + 1"]
    by (simp_all add: e_def)
  have e0: "0 \<le> e"
  proof (rule ccontr)
    assume "\<not> 0 \<le> e"
    then have "e + 1 \<le> 0" by simp
    then have "(2::real) powi (e + 1) \<le> 2 powi 0"
      by (intro power_int_increasing) simp_all
    with bounds(2) one show False by simp
  qed
  have e53: "e \<le> 53"
  proof (rule ccontr)
    assume "\<not> e \<le> 53"
    then have "54 \<le> e" by simp
    then have "(2::real) powi 54 \<le> 2 powi e"
      by (intro power_int_increasing) simp_all
    with bounds(1) top show False by simp
  qed
  define m where "m = (if e = 53 then n div 2 else n * 2 ^ nat (52 - e))"
  have scaled: "v / 2 powi (e - 52) = of_int m"
  proof (cases "e = 53")
    case True
    with bounds(1) top have "\<bar>v\<bar> = 2 ^ 53" by simp
    then have "\<bar>n\<bar> = 2 ^ 53"
      unfolding v_def by (metis of_int_abs of_int_eq_numeral_power_cancel_iff)
    then have "n = 2 ^ 53 \<or> n = - (2 ^ 53)" by linarith
    then have "n = 2 * (n div 2)" by auto
    then have "v = 2 * of_int (n div 2)"
      unfolding v_def by (metis of_int_mult of_int_numeral)
    with True show ?thesis by (simp add: m_def)
  next
    case False
    with e53 have "(2::real) powi (e - 52) = inverse (2 ^ nat (52 - e))"
      by (cases "e = 52") (simp_all add: power_int_def power_one_over inverse_eq_divide)
    with False show ?thesis by (simp add: m_def v_def field_simps)
  qed
  have unscaled: "real_of_int m * 2 powi (e - 52) = v"
    using scaled by (simp add: field_simps)
  have "v < 2 ^ 1024 \<and> - v < 2 ^ 1024"
  proof -
    have "(2::real) ^ 53 < 2 ^ 1024" by simp
    with top show ?thesis by (simp add: abs_le_iff)
  qed
  then have small: "\<not> 2 ^ 1024 \<le> \<bar>v\<bar>" by (simp add: abs_if)
  have "round64 v = Finite v"
    using round64_at [OF bounds, of v] e0 small by (simp add: scaled unscaled)
  then show ?thesis by (simp add: exact_def v_def)
qed

lemma round64_numeral:
  "numeral k \<le> (2 ^ 53 :: int) \<Longrightarrow> round64 (numeral k) = Finite (numeral k)"
  using exact_of_int [of "numeral k"] by (simp add: exact_def)

lemma rne_close: "\<bar>real_of_int (rne q) - q\<bar> \<le> 1 / 2"
proof -
  define f where "f = \<lfloor>q\<rfloor>"
  have "real_of_int f \<le> q" "q < real_of_int f + 1" unfolding f_def by linarith+
  then show ?thesis unfolding rne_def Let_def f_def [symmetric] by (auto simp: abs_if)
qed

lemma floor_log2_bounds:
  assumes "v \<noteq> 0"
  shows "2 powi \<lfloor>log 2 \<bar>v\<bar>\<rfloor> \<le> \<bar>v\<bar>" "\<bar>v\<bar> < 2 powi (\<lfloor>log 2 \<bar>v\<bar>\<rfloor> + 1)"
proof -
  define w where "w = \<bar>v\<bar>"
  define e where "e = \<lfloor>log 2 w\<rfloor>"
  from assms have pos: "0 < w" by (simp add: w_def)
  have "2 powi e \<le> w" "w < 2 powi (e + 1)"
    using floor_log_eq_powr_iff [of w 2 e] pos two_powr_int [of e] two_powr_int [of "e + 1"]
    by (simp_all add: e_def)
  then show "2 powi \<lfloor>log 2 \<bar>v\<bar>\<rfloor> \<le> \<bar>v\<bar>" "\<bar>v\<bar> < 2 powi (\<lfloor>log 2 \<bar>v\<bar>\<rfloor> + 1)"
    by (simp_all only: e_def w_def)
qed

text \<open>
  Below \<open>2 ^ 1023\<close> in magnitude a real rounds to a finite double at a distance of at most
  \<open>2 powi (- 53)\<close> of its magnitude, or of \<open>2 powi (- 1075)\<close> below the normal range.
\<close>

lemma round64_close:
  assumes "\<bar>v\<bar> < 2 ^ 1023"
  shows "\<exists>t. round64 v = Finite t \<and> \<bar>t - v\<bar> \<le> max (\<bar>v\<bar> * 2 powi (- 53)) (2 powi (- 1075))"
proof (cases "v = 0")
  case True
  then show ?thesis by (simp add: round64_def)
next
  case False
  define e where "e = \<lfloor>log 2 \<bar>v\<bar>\<rfloor>"
  define e' where "e' = max e (- 1022)"
  define u :: real where "u = 2 powi (e' - 52)"
  define t where "t = real_of_int (rne (v / u)) * u"
  have u: "0 < u" by (simp add: u_def)
  note b = floor_log2_bounds [OF False, folded e_def]
  have half: "u / 2 = 2 powi (e' - 53)"
  proof -
    have "(2::real) powi (e' - 52) = 2 powi (e' - 53) * 2 powi 1"
      by (subst power_int_add [symmetric]) simp_all
    then show ?thesis by (simp add: u_def)
  qed
  have err: "\<bar>t - v\<bar> \<le> u / 2"
  proof -
    have "t - v = (real_of_int (rne (v / u)) - v / u) * u"
      using u by (simp add: t_def field_simps)
    then have "\<bar>t - v\<bar> = \<bar>real_of_int (rne (v / u)) - v / u\<bar> * u"
      using u by (simp add: abs_mult)
    also have "\<dots> \<le> 1 / 2 * u"
      using rne_close [of "v / u"] u by (intro mult_right_mono) simp_all
    finally show ?thesis by simp
  qed
  have small: "u / 2 \<le> max (\<bar>v\<bar> * 2 powi (- 53)) (2 powi (- 1075))"
  proof (cases "- 1022 \<le> e")
    case True
    then have "u / 2 = 2 powi e * 2 powi (- 53)"
      unfolding half e'_def by (subst power_int_add [symmetric]) simp_all
    also have "\<dots> \<le> \<bar>v\<bar> * 2 powi (- 53)"
      using b(1) by (intro mult_right_mono) simp_all
    finally show ?thesis by simp
  next
    case False
    then have "e' = - 1022" by (simp add: e'_def)
    then show ?thesis by (simp add: half)
  qed
  have e1022: "e \<le> 1022"
  proof (rule ccontr)
    assume "\<not> e \<le> 1022"
    then have "1023 \<le> e" by simp
    then have "(2::real) powi 1023 \<le> 2 powi e"
      by (intro power_int_increasing) simp_all
    with b(1) assms show False by simp
  qed
  have "u / 2 \<le> 2 powi 969"
  proof -
    from e1022 have "e' - 53 \<le> 969" by (simp add: e'_def)
    then have "(2::real) powi (e' - 53) \<le> 2 powi 969"
      by (intro power_int_increasing) simp_all
    then show ?thesis by (simp only: half)
  qed
  with err have "\<bar>t\<bar> \<le> \<bar>v\<bar> + 2 powi 969" by linarith
  also have "\<dots> < 2 ^ 1023 + 2 ^ 969" using assms by simp
  also have "\<dots> < (2 :: real) ^ 1024" by simp
  finally have fin: "\<not> 2 ^ 1024 \<le> \<bar>t\<bar>" by simp
  have "round64 v = Finite t"
    using False fin by (simp add: round64_def Let_def e_def e'_def u_def t_def)
  moreover from err small have "\<bar>t - v\<bar> \<le> max (\<bar>v\<bar> * 2 powi (- 53)) (2 powi (- 1075))"
    by (rule order_trans)
  ultimately show ?thesis by blast
qed

section \<open>The hit test on doubles\<close>

lemma exact_zero [simp]: "exact 0"
  by (simp add: exact_def round64_def)

lemma exact_numeral: "numeral k \<le> (2 ^ 53 :: int) \<Longrightarrow> exact (numeral k)"
  using exact_of_int [of "numeral k"] by simp

lemma exact_neg_numeral: "numeral k \<le> (2 ^ 53 :: int) \<Longrightarrow> exact (- numeral k)"
  using exact_of_int [of "- numeral k"] by simp

lemma fsub_Finite [simp]: "fsub (Finite a) (Finite b) = round64 (a - b)"
  by (simp add: fsub_def)

lemma isInside_ieee_unfold:
  "isInside_ieee c p q \<longleftrightarrow>
     flt (fadd (fmul (fsub (x c) p) (fsub (x c) p)) (fmul (fsub (y c) q) (fsub (y c) q)))
       (fmul (radius c) (radius c))"
  by (simp add: isInside_ieee_def Let_def)

text \<open>A square is no negative double, and neither is a sum of two squares.\<close>

lemma fmul_self: "fmul a a = NaN \<or> fmul a a = PosInf \<or> (\<exists>r\<ge>0. fmul a a = Finite r)"
proof (cases a)
  case (Finite v)
  with round64_nonneg [of "v * v"] show ?thesis by auto
qed simp_all

lemma fadd_squares:
  "fadd (fmul a a) (fmul b b) = NaN \<or> fadd (fmul a a) (fmul b b) = PosInf \<or>
   (\<exists>r\<ge>0. fadd (fmul a a) (fmul b b) = Finite r)"
proof -
  from fmul_self [of a] fmul_self [of b] show ?thesis
  proof (elim disjE exE conjE)
    fix r t :: real
    assume "0 \<le> r" "fmul a a = Finite r" "0 \<le> t" "fmul b b = Finite t"
    with round64_nonneg [of "r + t"] show ?thesis by auto
  qed auto
qed

lemma isInside_ieee_radius_0: "radius c = Finite 0 \<Longrightarrow> \<not> isInside_ieee c p q"
  using fadd_squares [of "fsub (x c) p" "fsub (y c) q"]
  by (auto simp: isInside_ieee_unfold round64_def)

lemma isInside_ieee_exact:
  assumes "x c = Finite cx" "y c = Finite cy" "radius c = Finite r"
    and "exact (cx - px)" "exact (cy - py)"
    and "exact ((cx - px) * (cx - px))" "exact ((cy - py) * (cy - py))"
    and "exact ((cx - px) * (cx - px) + (cy - py) * (cy - py))" "exact (r * r)"
  shows "isInside_ieee c (Finite px) (Finite py) \<longleftrightarrow> (px - cx)\<^sup>2 + (py - cy)\<^sup>2 < r\<^sup>2"
proof -
  have "isInside_ieee c (Finite px) (Finite py) \<longleftrightarrow>
      (cx - px) * (cx - px) + (cy - py) * (cy - py) < r * r"
    using assms by (simp add: isInside_ieee_unfold exact_def)
  also have "\<dots> \<longleftrightarrow> (px - cx)\<^sup>2 + (py - cy)\<^sup>2 < r\<^sup>2"
    by (simp add: power2_eq_square algebra_simps)
  finally show ?thesis .
qed

lemma isInside_ieee_pixels:
  fixes cx cy px py r :: int
  assumes "x c = Finite (of_int cx)" "y c = Finite (of_int cy)" "radius c = Finite (of_int r)"
    and "\<bar>cx\<bar> \<le> 2 ^ 25" "\<bar>cy\<bar> \<le> 2 ^ 25" "\<bar>px\<bar> \<le> 2 ^ 25" "\<bar>py\<bar> \<le> 2 ^ 25" "\<bar>r\<bar> \<le> 2 ^ 26"
  shows "isInside_ieee c (Finite (of_int px)) (Finite (of_int py)) \<longleftrightarrow>
    (px - cx)\<^sup>2 + (py - cy)\<^sup>2 < r\<^sup>2"
proof -
  have sq: "a * a \<le> 2 ^ 52" if "\<bar>a\<bar> \<le> 2 ^ 26" for a :: int
  proof -
    have "\<bar>a\<bar> * \<bar>a\<bar> \<le> 2 ^ 26 * 2 ^ 26"
      using that by (intro mult_mono) simp_all
    then show ?thesis by (simp add: abs_mult_self_eq)
  qed
  have dx: "\<bar>cx - px\<bar> \<le> 2 ^ 26" and dy: "\<bar>cy - py\<bar> \<le> 2 ^ 26"
    using assms(4-7) by simp_all
  have nonneg: "0 \<le> a * a" for a :: int by simp
  have e1: "exact (real_of_int cx - real_of_int px)"
    using exact_of_int [of "cx - px"] dx by simp
  have e2: "exact (real_of_int cy - real_of_int py)"
    using exact_of_int [of "cy - py"] dy by simp
  have e3: "exact ((real_of_int cx - real_of_int px) * (real_of_int cx - real_of_int px))"
    using exact_of_int [of "(cx - px) * (cx - px)"] sq [OF dx] nonneg [of "cx - px"] by simp
  have e4: "exact ((real_of_int cy - real_of_int py) * (real_of_int cy - real_of_int py))"
    using exact_of_int [of "(cy - py) * (cy - py)"] sq [OF dy] nonneg [of "cy - py"] by simp
  have e5: "exact ((real_of_int cx - real_of_int px) * (real_of_int cx - real_of_int px) +
      (real_of_int cy - real_of_int py) * (real_of_int cy - real_of_int py))"
    using exact_of_int [of "(cx - px) * (cx - px) + (cy - py) * (cy - py)"]
      sq [OF dx] sq [OF dy] nonneg [of "cx - px"] nonneg [of "cy - py"] by simp
  have e6: "exact (real_of_int r * real_of_int r)"
    using exact_of_int [of "r * r"] sq [OF assms(8)] nonneg [of r] by simp
  have "isInside_ieee c (Finite (of_int px)) (Finite (of_int py)) \<longleftrightarrow>
      (real_of_int px - real_of_int cx)\<^sup>2 + (real_of_int py - real_of_int cy)\<^sup>2 < (real_of_int r)\<^sup>2"
    by (rule isInside_ieee_exact [OF assms(1-3) e1 e2 e3 e4 e5 e6])
  also have "\<dots> \<longleftrightarrow> real_of_int ((px - cx)\<^sup>2 + (py - cy)\<^sup>2) < real_of_int (r\<^sup>2)"
    by simp
  also have "\<dots> \<longleftrightarrow> (px - cx)\<^sup>2 + (py - cy)\<^sup>2 < r\<^sup>2"
    by (rule of_int_less_iff)
  finally show ?thesis .
qed

lemma disc_cases:
  fixes d2 r eps :: real
  assumes "0 \<le> d2"
  shows "(sqrt d2 = r \<longrightarrow> \<not> d2 < r\<^sup>2) \<and>
         (0 < eps \<and> sqrt d2 = r - eps \<longrightarrow> d2 < r\<^sup>2) \<and>
         (0 \<le> r \<and> 0 < eps \<and> sqrt d2 = r + eps \<longrightarrow> \<not> d2 < r\<^sup>2)"
proof -
  have sq: "d2 = t\<^sup>2" if "sqrt d2 = t" for t
    using that assms by (metis real_sqrt_pow2)
  have on: "\<not> d2 < r\<^sup>2" if "sqrt d2 = r"
    using sq [OF that] by simp
  have inner: "d2 < r\<^sup>2" if "0 < eps" "sqrt d2 = r - eps"
  proof -
    from that(2) assms have "0 \<le> r - eps" by (metis real_sqrt_ge_zero)
    with that(1) have "(r - eps)\<^sup>2 < r\<^sup>2"
      by (intro power_strict_mono) auto
    with sq [OF that(2)] show ?thesis by simp
  qed
  have outer: "\<not> d2 < r\<^sup>2" if "0 \<le> r" "0 < eps" "sqrt d2 = r + eps"
  proof -
    from that(1,2) have "r\<^sup>2 < (r + eps)\<^sup>2"
      by (intro power_strict_mono) auto
    with sq [OF that(3)] show ?thesis by simp
  qed
  from on inner outer show ?thesis by blast
qed

lemma round64_2_54: "round64 (2 ^ 54) = Finite (2 ^ 54)"
  by (subst round64_at [where e = 54 and r = "2 ^ 54"]) (simp_all add: rne_def)

lemma round64_sum: "round64 (2 ^ 54 + 2 ^ 28) = Finite (2 ^ 54 + 2 ^ 28)"
  by (subst round64_at [where e = 54 and r = "2 ^ 54 + 2 ^ 28"]) (simp_all add: rne_def)

lemma round64_big_square: "round64 ((2 ^ 27 + 1) * (2 ^ 27 + 1)) = Finite (2 ^ 54 + 2 ^ 28)"
  by (subst round64_at [where e = 54 and r = "2 ^ 54 + 2 ^ 28"]) (simp_all add: rne_def)

lemma round64_small:
  "round64 (- (2 ^ 27)) = Finite (- (2 ^ 27))" "round64 (- (2 ^ 14)) = Finite (- (2 ^ 14))"
  "round64 (2 ^ 28) = Finite (2 ^ 28)"
  using exact_of_int [of "- (2 ^ 27)"] exact_of_int [of "- (2 ^ 14)"] exact_of_int [of "2 ^ 28"]
  by (simp_all add: exact_def)

lemma ring_roots:
  "sqrt ((400 - 200)\<^sup>2 + (200 - 200)\<^sup>2) = (200 :: real)"
  "sqrt ((399 - 200)\<^sup>2 + (200 - 200)\<^sup>2) = (200 :: real) - 1"
  "sqrt ((401 - 200)\<^sup>2 + (200 - 200)\<^sup>2) = (200 :: real) + 1"
  by (simp_all add: real_sqrt_unique)

section \<open>The constructor on doubles\<close>

text \<open>
  The circle at position \<open>k\<close> has the radius that \<open>k\<close> subtractions of the step leave of
  the greatest radius.
\<close>

lemma create_circles_ieee_eq:
  "create_circles_ieee i n cx cy d img rnd r cs =
     cs @ map (\<lambda>k. \<lparr>x = cx, y = cy, radius = ((\<lambda>v. fsub v d) ^^ (k - i)) r, image_ref = img,
                     rotation = fmul (rnd k) FULL_ROTATION_ieee\<rparr>) [i..<n]"
proof (induction i n cx cy d img rnd r cs rule: create_circles_ieee.induct)
  case (1 i n cx cy d img rnd r cs)
  show ?case
  proof (cases "i < n")
    case True
    have shift: "((\<lambda>v. fsub v d) ^^ (k - Suc i)) (fsub r d) = ((\<lambda>v. fsub v d) ^^ (k - i)) r"
      if "Suc i \<le> k" for k
    proof -
      from that have "k - i = Suc (k - Suc i)" by simp
      then show ?thesis by (simp only: funpow_Suc_right o_apply)
    qed
    have "map (\<lambda>k. \<lparr>x = cx, y = cy, radius = ((\<lambda>v. fsub v d) ^^ (k - (i + 1))) (fsub r d),
                     image_ref = img, rotation = fmul (rnd k) FULL_ROTATION_ieee\<rparr>) [i + 1..<n] =
          map (\<lambda>k. \<lparr>x = cx, y = cy, radius = ((\<lambda>v. fsub v d) ^^ (k - i)) r, image_ref = img,
                     rotation = fmul (rnd k) FULL_ROTATION_ieee\<rparr>) [i + 1..<n]"
      by (rule map_cong) (auto simp: shift)
    with True "1.IH" [OF True refl refl] show ?thesis
      by (subst create_circles_ieee.simps) (simp add: Let_def upt_conv_Cons)
  next
    case False
    then show ?thesis by (subst create_circles_ieee.simps) simp
  qed
qed

lemma circles_new_ieee:
  "circles (new_PuzzleController_ieee pc img n rnd) =
     map (\<lambda>k. \<lparr>x = fdiv (getWidth pc) (Finite 2), y = fdiv (getHeight pc) (Finite 2),
               radius =
                 ((\<lambda>v. fsub v
                    (fdiv (fdiv (fmin (fmin (fmin (getWidth pc) (getHeight pc)) (width img))
                       (height img)) (Finite 2)) (Finite (real n)))) ^^ k)
                   (fdiv (fmin (fmin (fmin (getWidth pc) (getHeight pc)) (width img))
                      (height img)) (Finite 2)),
               image_ref = img, rotation = fmul (rnd k) FULL_ROTATION_ieee\<rparr>) [0..<n]"
  by (simp add: new_PuzzleController_ieee_def Let_def create_circles_ieee_eq)

text \<open>Repeated subtraction is the closed form as long as no subtraction rounds.\<close>

lemma repeated_fsub_exact:
  "\<forall>i \<le> k. exact (M - real i * D) \<Longrightarrow>
   ((\<lambda>v. fsub v (Finite D)) ^^ k) (Finite M) = Finite (M - real k * D)"
proof (induction k)
  case 0
  show ?case by simp
next
  case (Suc k)
  then have "((\<lambda>v. fsub v (Finite D)) ^^ k) (Finite M) = Finite (M - real k * D)" by simp
  moreover from Suc.prems have "exact (M - real (Suc k) * D)" by blast
  then have "round64 (M - real k * D - D) = Finite (M - real (Suc k) * D)"
    by (simp add: exact_def algebra_simps)
  ultimately show ?case by simp
qed

text \<open>
  Repeated subtraction of the rounded quotient \<open>M / n\<close> strictly decreases for \<open>n\<close> steps,
  whatever the roundings: a subtraction is off by at most \<open>M / 2 ^ 53\<close>, less than the
  quotient.
\<close>

lemma repeated_fsub_decreasing:
  fixes M :: real and n :: nat
  assumes M: "1 / 2 \<le> M" "M \<le> 2 ^ 1000" and n: "n \<le> 2 ^ 50" and ij: "i < j" "j < n"
  shows "flt (((\<lambda>v. fsub v (fdiv (Finite M) (Finite (real n)))) ^^ j) (Finite M))
             (((\<lambda>v. fsub v (fdiv (Finite M) (Finite (real n)))) ^^ i) (Finite M))"
proof -
  define h where "h = M / 2 ^ 53"
  define q where "q = M / real n"
  from ij have npos: "0 < real n" by simp
  from M have Mpos: "0 < M" by simp
  from n have ntop: "real n \<le> 2 ^ 50"
    by (metis of_nat_le_iff of_nat_numeral of_nat_power)
  have qpos: "0 < q" using Mpos npos by (simp add: q_def)
  have qlow: "M / 2 ^ 50 \<le> q"
    unfolding q_def using Mpos npos ntop by (intro divide_left_mono) simp_all
  have nq: "real n * q = M" using npos by (simp add: q_def)
  have "1 \<le> real n" using ij by simp
  then have "q \<le> M" using Mpos npos by (simp add: q_def field_simps)
  with M(2) qpos have "\<bar>q\<bar> < 2 ^ 1023" by simp
  from round64_close [OF this] obtain D where
    D: "round64 q = Finite D" and
    close: "\<bar>D - q\<bar> \<le> max (\<bar>q\<bar> * 2 powi (- 53)) (2 powi (- 1075))"
    by blast
  have p53: "(2::real) powi (- 53) = 1 / 2 ^ 53"
    by (simp add: power_int_minus field_simps)
  have tiny: "(2::real) powi (- 1075) \<le> 1 / 2 ^ 107"
  proof -
    have "(2::real) powi (- 1075) \<le> 2 powi (- 107)"
      by (intro power_int_increasing) simp_all
    then show ?thesis by (simp add: power_int_minus field_simps)
  qed
  have hlow: "1 / 2 ^ 54 \<le> h" using M(1) by (simp add: h_def)
  have "1 / 2 ^ 51 \<le> q" using qlow M(1) by simp
  then have "1 / 2 ^ 107 \<le> q / 2 ^ 53" by simp
  with tiny qpos have "max (\<bar>q\<bar> * 2 powi (- 53)) (2 powi (- 1075)) = q / 2 ^ 53"
    by (simp add: p53)
  with close have Dq: "\<bar>D - q\<bar> \<le> q / 2 ^ 53" by simp
  have d: "fdiv (Finite M) (Finite (real n)) = Finite D"
    using npos D by (simp add: q_def)
  have hD: "h < D"
  proof -
    have "h < M / 2 ^ 50 - (M / 2 ^ 50) / 2 ^ 53" using Mpos by (simp add: h_def)
    also have "\<dots> \<le> q - q / 2 ^ 53" using qlow by simp
    also have "\<dots> \<le> D" using Dq by linarith
    finally show ?thesis .
  qed
  have hpos: "0 < h" using Mpos by (simp add: h_def)
  have total: "real n * (D + h) \<le> 2 * M"
  proof -
    have "D \<le> q + q / 2 ^ 53" using Dq by linarith
    then have "real n * D \<le> real n * (q + q / 2 ^ 53)"
      using npos by (intro mult_left_mono) simp_all
    also have "\<dots> = M + M / 2 ^ 53" using nq by (simp add: distrib_left)
    finally have one: "real n * D \<le> M + M / 2 ^ 53" .
    have "real n * h \<le> 2 ^ 50 * h"
      using ntop hpos by (intro mult_right_mono) simp_all
    also have "\<dots> = M / 8" by (simp add: h_def)
    finally have two: "real n * h \<le> M / 8" .
    have "M / 2 ^ 53 \<le> M / 8" using Mpos by simp
    with one two Mpos show ?thesis by (simp add: distrib_left)
  qed
  let ?f = "\<lambda>v. fsub v (fdiv (Finite M) (Finite (real n)))"
  have step: "\<exists>t. ?f (Finite r) = Finite t \<and> \<bar>t - (r - D)\<bar> \<le> h" if "\<bar>r - D\<bar> \<le> M" for r
  proof -
    from that M(2) have "\<bar>r - D\<bar> < 2 ^ 1023" by simp
    from round64_close [OF this] obtain t where
      t: "round64 (r - D) = Finite t" and
      c: "\<bar>t - (r - D)\<bar> \<le> max (\<bar>r - D\<bar> * 2 powi (- 53)) (2 powi (- 1075))"
      by blast
    have "\<bar>r - D\<bar> * 2 powi (- 53) \<le> h"
      using that by (simp add: p53 h_def divide_right_mono)
    moreover have "(2::real) powi (- 1075) \<le> h"
      using tiny hlow by simp
    ultimately have "max (\<bar>r - D\<bar> * 2 powi (- 53)) (2 powi (- 1075)) \<le> h" by simp
    with c have "\<bar>t - (r - D)\<bar> \<le> h" by linarith
    moreover have "?f (Finite r) = Finite t" unfolding d using t by (simp add: fsub_def)
    ultimately show ?thesis by blast
  qed
  have inside: "\<bar>r - D\<bar> \<le> M"
    if "\<bar>r - (M - real k * D)\<bar> \<le> real k * h" "Suc k < n" for r k
  proof -
    have a: "real k * h \<le> real k * D"
      using hD by (intro mult_left_mono) simp_all
    from that(2) have "real k + 2 \<le> real n" by simp
    then have "(real k + 2) * (D + h) \<le> real n * (D + h)"
      using hD hpos by (intro mult_right_mono) simp_all
    with total have "(real k + 2) * (D + h) \<le> 2 * M" by linarith
    then have b: "real k * D + real k * h + 2 * D + 2 * h \<le> 2 * M"
      by (simp add: algebra_simps)
    from that(1) a b hD hpos show ?thesis by (simp add: abs_le_iff) 
  qed
  have inv: "\<exists>r. (?f ^^ k) (Finite M) = Finite r \<and> \<bar>r - (M - real k * D)\<bar> \<le> real k * h"
    if "k < n" for k
    using that
  proof (induction k)
    case 0
    show ?case by simp
  next
    case (Suc k)
    then obtain r where r: "(?f ^^ k) (Finite M) = Finite r"
      "\<bar>r - (M - real k * D)\<bar> \<le> real k * h" by auto
    from step [OF inside [OF r(2) Suc.prems]] obtain t where
      t: "?f (Finite r) = Finite t" "\<bar>t - (r - D)\<bar> \<le> h" by blast
    from r(2) t(2) have "\<bar>t - (M - real (Suc k) * D)\<bar> \<le> real (Suc k) * h"
      by (simp add: algebra_simps abs_le_iff)
    with r(1) t(1) show ?case by simp
  qed
  have down: "flt ((?f ^^ Suc k) (Finite M)) ((?f ^^ k) (Finite M))" if "Suc k < n" for k
  proof -
    from that have "k < n" by simp
    from inv [OF this] obtain r where r: "(?f ^^ k) (Finite M) = Finite r"
      "\<bar>r - (M - real k * D)\<bar> \<le> real k * h" by blast
    from step [OF inside [OF r(2) that]] obtain t where
      t: "?f (Finite r) = Finite t" "\<bar>t - (r - D)\<bar> \<le> h" by blast
    from t(2) hD have "t < r" by linarith
    with r(1) t(1) show ?thesis by simp
  qed
  have trans: "flt a c" if "flt a b" "flt b c" for a b c
    using that by (cases a; cases b; cases c) simp_all
  have "j < n \<longrightarrow> flt ((?f ^^ j) (Finite M)) ((?f ^^ i) (Finite M))"
    using ij(1)
  proof (induction j)
    case 0
    then show ?case by simp
  next
    case (Suc j)
    show ?case
    proof (cases "i = j")
      case True
      then show ?thesis using down [of j] by blast
    next
      case False
      with Suc.prems have "i < j" by simp
      with Suc.IH have "j < n \<longrightarrow> flt ((?f ^^ j) (Finite M)) ((?f ^^ i) (Finite M))" by simp
      then show ?thesis using down [of j] trans by (meson Suc_lessD)
    qed
  qed
  with ij(2) show ?thesis by blast
qed

lemma upt_5: "[0..<5] = [0, 1, 2, 3, 4 :: nat]"
  by (simp add: upt_rec)

lemma round64_step6: "round64 (200 / 6) = Finite (4691249611844267 / 2 ^ 47)"
  by (subst round64_at [where e = 5 and r = "4691249611844267 / 2 ^ 47"]) (simp_all add: rne_def)

lemma round64_six_1:
  "round64 (200 - 4691249611844267 / 2 ^ 47) = Finite (5864062014805333 / 2 ^ 45)"
  by (subst round64_at [where e = 7 and r = "5864062014805333 / 2 ^ 45"]) (simp_all add: rne_def)

lemma round64_six_2:
  "round64 (5864062014805333 / 2 ^ 45 - 4691249611844267 / 2 ^ 47) =
     Finite (2345624805922133 / 2 ^ 44)"
  by (subst round64_at [where e = 7 and r = "2345624805922133 / 2 ^ 44"]) (simp_all add: rne_def)

lemma round64_six_3:
  "round64 (2345624805922133 / 2 ^ 44 - 4691249611844267 / 2 ^ 47) =
     Finite (3518437208883199 / 2 ^ 45)"
  by (subst round64_at [where e = 6 and r = "3518437208883199 / 2 ^ 45"]) (simp_all add: rne_def)

lemma round64_three_steps: "round64 (3 * (4691249611844267 / 2 ^ 47)) = Finite 100"
  by (subst round64_at [where e = 6 and r = 100]) (simp_all add: rne_def)

lemma six_radius_3: "radius (circles six_ieee ! 3) = Finite (3518437208883199 / 2 ^ 45)"
proof -
  have "[0..<6] ! 3 = (3::nat)" by simp
  then have "radius (circles six_ieee ! 3) =
      ((\<lambda>v. fsub v (Finite (4691249611844267 / 2 ^ 47))) ^^ 3) (Finite 200)"
    using round64_step6 unfolding six_ieee_def circles_new_ieee
    by (simp add: demo_canvas_ieee_def demo_image_ieee_def getWidth_def getHeight_def
        round64_numeral del: upt_Suc)
  also have "\<dots> = Finite (3518437208883199 / 2 ^ 45)"
    using round64_six_1 round64_six_2 round64_six_3 by (simp add: eval_nat_numeral)
  finally show ?thesis .
qed

lemma flat_ieee_circles:
  "map radius (circles flat_ieee) = [Finite 0, Finite 0]"
proof -
  have "[0..<2] = [0, 1 :: nat]" by (simp add: upt_rec)
  then show ?thesis
    unfolding flat_ieee_def circles_new_ieee
    by (simp add: flat_canvas_ieee_def demo_image_ieee_def getWidth_def getHeight_def
        round64_def)
qed

section \<open>Rotation on doubles\<close>

lemma rotateCircle_ieee_Some:
  "a < length (circles s) \<Longrightarrow>
   rotateCircle_ieee s (Some a) d =
     Inr (s\<lparr>circles := (circles s)[a := (circles s ! a)\<lparr>rotation := fadd (rotation (circles s ! a)) d\<rparr>]\<rparr>)"
  by (simp add: rotateCircle_ieee_def deref_def)

lemma rotate_twice_ieee_Some:
  assumes "a < length (circles s)"
  shows "rotate_twice_ieee s (Some a) d1 d2 =
     Inr (s\<lparr>circles := (circles s)[a := (circles s ! a)
            \<lparr>rotation := fadd (fadd (rotation (circles s ! a)) d1) d2\<rparr>]\<rparr>)"
proof -
  let ?s1 = "s\<lparr>circles := (circles s)[a := (circles s ! a)
      \<lparr>rotation := fadd (rotation (circles s ! a)) d1\<rparr>]\<rparr>"
  from assms have "a < length (circles ?s1)" by simp
  then have "rotateCircle_ieee ?s1 (Some a) d2 =
      Inr (?s1\<lparr>circles := (circles ?s1)[a := (circles ?s1 ! a)
            \<lparr>rotation := fadd (rotation (circles ?s1 ! a)) d2\<rparr>]\<rparr>)"
    by (rule rotateCircle_ieee_Some)
  with assms show ?thesis
    by (simp add: rotate_twice_ieee_def and_then_def rotateCircle_ieee_Some)
qed

lemma rotate_ieee_throws:
  "deref s circle = None \<Longrightarrow>
   rotateCircle_ieee s circle d1 = Inl TypeError \<and> rotate_twice_ieee s circle d1 d2 = Inl TypeError"
  by (simp add: rotateCircle_ieee_def rotate_twice_ieee_def and_then_def)

lemma round64_03: "round64 (tenth + fifth) = Finite (1351079888211149 / 2 ^ 52)"
  unfolding tenth_def fifth_def
  by (subst round64_at [where e = "- 2" and r = "1351079888211149 / 2 ^ 52"])
    (simp_all add: rne_def)

lemma round64_06: "round64 (1351079888211149 / 2 ^ 52 + three_tenths) = Finite (1351079888211149 / 2 ^ 51)"
  unfolding three_tenths_def
  by (subst round64_at [where e = "- 1" and r = "1351079888211149 / 2 ^ 51"])
    (simp_all add: rne_def)

lemma round64_05: "round64 (fifth + three_tenths) = Finite (1 / 2)"
  unfolding fifth_def three_tenths_def
  by (subst round64_at [where e = "- 1" and r = "1 / 2"]) (simp_all add: rne_def)

lemma round64_06': "round64 (tenth + 1 / 2) = Finite (5404319552844595 / 2 ^ 53)"
  unfolding tenth_def
  by (subst round64_at [where e = "- 1" and r = "5404319552844595 / 2 ^ 53"])
    (simp_all add: rne_def)

lemma demo_ieee_length: "length (circles demo_ieee) = 5"
  by (simp add: demo_ieee_def circles_new_ieee)

lemma turned_fields:
  "length (circles turned_tenth) = 5" "rotation (circles turned_tenth ! 0) = Finite tenth"
  "length (circles turned_fifth) = 5" "rotation (circles turned_fifth ! 0) = Finite fifth"
  by (simp_all add: turned_tenth_def turned_fifth_def demo_ieee_length)

lemma rotated_apart:
  assumes "0 < length cs" "u \<noteq> v"
  shows "(Inr (s\<lparr>circles := cs[0 := (cs ! 0)\<lparr>rotation := Finite u\<rparr>]\<rparr>) :: error + double PuzzleController) \<noteq>
         Inr (s\<lparr>circles := cs[0 := (cs ! 0)\<lparr>rotation := Finite v\<rparr>]\<rparr>)"
proof
  let ?A = "s\<lparr>circles := cs[0 := (cs ! 0)\<lparr>rotation := Finite u\<rparr>]\<rparr>"
  let ?B = "s\<lparr>circles := cs[0 := (cs ! 0)\<lparr>rotation := Finite v\<rparr>]\<rparr>"
  assume "(Inr ?A :: error + double PuzzleController) = Inr ?B"
  then have "?A = ?B" by (simp only: sum.inject)
  then have "rotation (circles ?A ! 0) = rotation (circles ?B ! 0)" by (simp only:)
  with assms show False by simp
qed

lemma exact_one [simp]: "exact 1"
  using exact_of_int [of 1] by simp

lemma full_rotation_ieee: "FULL_ROTATION_ieee = Finite (884279719003555 / 2 ^ 47)"
  unfolding FULL_ROTATION_ieee_def Math_PI_def
  by (simp, subst round64_at [where e = 2 and r = "884279719003555 / 2 ^ 47"])
    (simp_all add: rne_def)

lemma demo_ieee_rotation_0: "rotation (circles demo_ieee ! 0) = Finite 0"
  by (simp add: demo_ieee_def circles_new_ieee no_scramble_ieee_def full_rotation_ieee
      round64_def del: upt_Suc)

section \<open>A mousedown during a drag\<close>

text \<open>
  The first move after a \<open>mousedown\<close> that reaches a controller which is not dragging
  changes no circle; a \<open>mousedown\<close> at the centre during the drag of \<open>dragging\<close> selects
  the innermost circle and keeps the cached cursor position.
\<close>

lemma first_move_after_idle_down:
  "(isDragging s \<and> lastCursorX s = None \<longrightarrow>
      mousemove s cursorX cursorY = Inr (s\<lparr>lastCursorX := Some cursorX\<rparr>)) \<and>
   (\<not> isDragging (run (new_PuzzleController pc img n rnd) evs) \<longrightarrow>
      circles (run (new_PuzzleController pc img n rnd)
                 (evs @ [MouseDown px py, MouseMove cursorX cursorY])) =
        circles (run (new_PuzzleController pc img n rnd) evs) \<and>
      (isDragging (mousedown (run (new_PuzzleController pc img n rnd) evs) px py) \<longrightarrow>
         lastCursorX (run (new_PuzzleController pc img n rnd)
                        (evs @ [MouseDown px py, MouseMove cursorX cursorY])) = Some cursorX))"
proof (intro conjI impI)
  assume "isDragging s \<and> lastCursorX s = None"
  then show "mousemove s cursorX cursorY = Inr (s\<lparr>lastCursorX := Some cursorX\<rparr>)"
    by (simp add: mousemove_first)
next
  assume idle: "\<not> isDragging (run (new_PuzzleController pc img n rnd) evs)"
  note both = down_then_move [OF run_new_idle_no_cache [OF idle], of px py cursorX cursorY]
  from both show "circles (run (new_PuzzleController pc img n rnd)
                 (evs @ [MouseDown px py, MouseMove cursorX cursorY])) =
        circles (run (new_PuzzleController pc img n rnd) evs)"
    by (simp only: run_append)
  assume "isDragging (mousedown (run (new_PuzzleController pc img n rnd) evs) px py)"
  with both show "lastCursorX (run (new_PuzzleController pc img n rnd)
                        (evs @ [MouseDown px py, MouseMove cursorX cursorY])) = Some cursorX"
    by (simp only: run_append)
qed

lemma dragging_hits_centre:
  "mousedown dragging 200 200 = dragging\<lparr>activeCircle := Some 4\<rparr>"
proof -
  have "mousedown dragging 200 200 = dragging\<lparr>activeCircle := Some 4, isDragging := True\<rparr>"
  proof (rule mousedown_innermost)
    show "4 < length (circles dragging)" by (simp add: dragging_fields demo_length)
    show "isInside (circles dragging ! 4) 200 200"
      by (simp add: dragging_fields demo_centre_hits)
    show "\<forall>m. 4 < m \<and> m < length (circles dragging) \<longrightarrow> \<not> isInside (circles dragging ! m) 200 200"
      by (auto simp: dragging_fields demo_length)
  qed
  then show ?thesis by (simp add: dragging_fields)
qed

section \<open>Claims\<close>

text \<open>
  Claim C3, as stated, makes \<open>isInside\<close> the comparison of the squared distance with the
  squared radius. The source compares the two as it computes them: for the circle of
  radius \<open>2 ^ 27 + 1\<close> about the origin and the point \<open>(2 ^ 27, 2 ^ 14)\<close> the squared
  distance is less than the squared radius, by one, and the square of the radius rounds
  to the squared distance, so the point is not inside.
\<close>

theorem isInside_ieee_strict_counterexample:
  "(2 ^ 27 - 0)\<^sup>2 + (2 ^ 14 - 0)\<^sup>2 < ((2 ^ 27 + 1)\<^sup>2 :: real) \<and>
   \<not> isInside_ieee big_circle (Finite (2 ^ 27)) (Finite (2 ^ 14))"
proof -
  have "fsub (Finite 0) (Finite (2 ^ 27)) = Finite (- (2 ^ 27))"
    "fsub (Finite 0) (Finite (2 ^ 14)) = Finite (- (2 ^ 14))"
    using round64_small by simp_all
  moreover have "fmul (Finite (- (2 ^ 27))) (Finite (- (2 ^ 27))) = Finite (2 ^ 54)"
    using round64_2_54 by simp
  moreover have "fmul (Finite (- (2 ^ 14))) (Finite (- (2 ^ 14))) = Finite (2 ^ 28)"
    using round64_small by simp
  moreover have "fadd (Finite (2 ^ 54)) (Finite (2 ^ 28)) = Finite (2 ^ 54 + 2 ^ 28)"
    using round64_sum by simp
  moreover have "fmul (Finite (2 ^ 27 + 1)) (Finite (2 ^ 27 + 1)) = Finite (2 ^ 54 + 2 ^ 28)"
    using round64_big_square by simp
  ultimately have "\<not> isInside_ieee big_circle (Finite (2 ^ 27)) (Finite (2 ^ 14))"
    by (simp add: isInside_ieee_unfold big_circle_def)
  then show ?thesis by simp
qed

text \<open>
  Claim C3, amended. \<open>isInside\<close> holds exactly when the squared distance as the source
  computes it, in double arithmetic, is strictly less than the product of the radius
  with itself as computed; a circle of radius \<open>0\<close> contains no point at all. When none
  of the subtractions, products and the sum rounds, that is the comparison of the
  squared distance with the squared radius, and then a point at distance \<open>radius\<close> is
  not inside, a point at distance \<open>radius - eps\<close> is inside and, for a radius that is
  not negative, a point at distance \<open>radius + eps\<close> is not. Nothing rounds when the
  centre and the point have whole coordinates up to \<open>2 ^ 25\<close> in magnitude and the
  radius is a whole number up to \<open>2 ^ 26\<close>.
\<close>

theorem isInside_ieee_strict:
  "(isInside_ieee c p q \<longleftrightarrow>
      flt (fadd (fmul (fsub (x c) p) (fsub (x c) p)) (fmul (fsub (y c) q) (fsub (y c) q)))
        (fmul (radius c) (radius c))) \<and>
   (radius c = Finite 0 \<longrightarrow> \<not> isInside_ieee c p q) \<and>
   (x c = Finite cx \<and> y c = Finite cy \<and> radius c = Finite r \<and>
    exact (cx - px) \<and> exact (cy - py) \<and>
    exact ((cx - px) * (cx - px)) \<and> exact ((cy - py) * (cy - py)) \<and>
    exact ((cx - px) * (cx - px) + (cy - py) * (cy - py)) \<and> exact (r * r) \<longrightarrow>
      (isInside_ieee c (Finite px) (Finite py) \<longleftrightarrow> (px - cx)\<^sup>2 + (py - cy)\<^sup>2 < r\<^sup>2) \<and>
      (sqrt ((px - cx)\<^sup>2 + (py - cy)\<^sup>2) = r \<longrightarrow> \<not> isInside_ieee c (Finite px) (Finite py)) \<and>
      (0 < eps \<and> sqrt ((px - cx)\<^sup>2 + (py - cy)\<^sup>2) = r - eps \<longrightarrow>
         isInside_ieee c (Finite px) (Finite py)) \<and>
      (0 \<le> r \<and> 0 < eps \<and> sqrt ((px - cx)\<^sup>2 + (py - cy)\<^sup>2) = r + eps \<longrightarrow>
         \<not> isInside_ieee c (Finite px) (Finite py))) \<and>
   (x c = Finite (of_int ix) \<and> y c = Finite (of_int iy) \<and> radius c = Finite (of_int ir) \<and>
    \<bar>ix\<bar> \<le> 2 ^ 25 \<and> \<bar>iy\<bar> \<le> 2 ^ 25 \<and> \<bar>jx\<bar> \<le> 2 ^ 25 \<and> \<bar>jy\<bar> \<le> 2 ^ 25 \<and> \<bar>ir\<bar> \<le> 2 ^ 26 \<longrightarrow>
      (isInside_ieee c (Finite (of_int jx)) (Finite (of_int jy)) \<longleftrightarrow>
         (jx - ix)\<^sup>2 + (jy - iy)\<^sup>2 < ir\<^sup>2))"
proof (intro conjI impI)
  show "isInside_ieee c p q \<longleftrightarrow>
      flt (fadd (fmul (fsub (x c) p) (fsub (x c) p)) (fmul (fsub (y c) q) (fsub (y c) q)))
        (fmul (radius c) (radius c))"
    by (rule isInside_ieee_unfold)
next
  assume "radius c = Finite 0"
  then show "\<not> isInside_ieee c p q" by (rule isInside_ieee_radius_0)
next
  assume pixels: "x c = Finite (of_int ix) \<and> y c = Finite (of_int iy) \<and>
    radius c = Finite (of_int ir) \<and>
    \<bar>ix\<bar> \<le> 2 ^ 25 \<and> \<bar>iy\<bar> \<le> 2 ^ 25 \<and> \<bar>jx\<bar> \<le> 2 ^ 25 \<and> \<bar>jy\<bar> \<le> 2 ^ 25 \<and> \<bar>ir\<bar> \<le> 2 ^ 26"
  then show "isInside_ieee c (Finite (of_int jx)) (Finite (of_int jy)) \<longleftrightarrow>
         (jx - ix)\<^sup>2 + (jy - iy)\<^sup>2 < ir\<^sup>2"
    by (intro isInside_ieee_pixels) simp_all
next
  assume h: "x c = Finite cx \<and> y c = Finite cy \<and> radius c = Finite r \<and>
    exact (cx - px) \<and> exact (cy - py) \<and>
    exact ((cx - px) * (cx - px)) \<and> exact ((cy - py) * (cy - py)) \<and>
    exact ((cx - px) * (cx - px) + (cy - py) * (cy - py)) \<and> exact (r * r)"
  then have inside:
    "isInside_ieee c (Finite px) (Finite py) \<longleftrightarrow> (px - cx)\<^sup>2 + (py - cy)\<^sup>2 < r\<^sup>2"
    by (intro isInside_ieee_exact) simp_all
  have nonneg: "0 \<le> (px - cx)\<^sup>2 + (py - cy)\<^sup>2" by simp
  note cases = disc_cases [OF nonneg, of r eps]
  from inside show
    "isInside_ieee c (Finite px) (Finite py) \<longleftrightarrow> (px - cx)\<^sup>2 + (py - cy)\<^sup>2 < r\<^sup>2" .
  {
    assume "sqrt ((px - cx)\<^sup>2 + (py - cy)\<^sup>2) = r"
    with cases inside show "\<not> isInside_ieee c (Finite px) (Finite py)" by blast
  }
  {
    assume "0 < eps \<and> sqrt ((px - cx)\<^sup>2 + (py - cy)\<^sup>2) = r - eps"
    with cases inside show "isInside_ieee c (Finite px) (Finite py)" by blast
  }
  {
    assume "0 \<le> r \<and> 0 < eps \<and> sqrt ((px - cx)\<^sup>2 + (py - cy)\<^sup>2) = r + eps"
    with cases inside show "\<not> isInside_ieee c (Finite px) (Finite py)" by blast
  }
qed

theorem isInside_ieee_strict_witness:
  "\<not> isInside_ieee outer_ring (Finite 400) (Finite 200) \<and>
   isInside_ieee outer_ring (Finite 399) (Finite 200) \<and>
   \<not> isInside_ieee outer_ring (Finite 401) (Finite 200) \<and>
   \<not> isInside_ieee point_ring (Finite 200) (Finite 200) \<and>
   isInside_ieee outer_ring (Finite (of_int 320)) (Finite (of_int 359))"
proof -
  have ring: "x outer_ring = Finite 200" "y outer_ring = Finite 200" "radius outer_ring = Finite 200"
    "radius point_ring = Finite 0"
    "x outer_ring = Finite (of_int 200)" "y outer_ring = Finite (of_int 200)"
    "radius outer_ring = Finite (of_int 200)"
    by (simp_all add: outer_ring_def point_ring_def)
  have ex: "exact (200 - 400)" "exact (200 - 399)" "exact (200 - 401)" "exact (200 - 200)"
    "exact ((200 - 400) * (200 - 400))" "exact ((200 - 399) * (200 - 399))"
    "exact ((200 - 401) * (200 - 401))" "exact ((200 - 200) * (200 - 200))"
    "exact ((200 - 400) * (200 - 400) + (200 - 200) * (200 - 200))"
    "exact ((200 - 399) * (200 - 399) + (200 - 200) * (200 - 200))"
    "exact ((200 - 401) * (200 - 401) + (200 - 200) * (200 - 200))"
    "exact (200 * 200)"
    by (simp_all add: exact_numeral exact_neg_numeral)
  have bounds: "\<bar>200 :: int\<bar> \<le> 2 ^ 25" "\<bar>320 :: int\<bar> \<le> 2 ^ 25" "\<bar>359 :: int\<bar> \<le> 2 ^ 25"
    "\<bar>200 :: int\<bar> \<le> 2 ^ 26" "(320 - 200)\<^sup>2 + (359 - 200)\<^sup>2 < (200 :: int)\<^sup>2"
    by simp_all
  have one: "(0 :: real) < 1" "(0 :: real) \<le> 200" by simp_all
  from isInside_ieee_strict [of outer_ring "Finite 400" "Finite 200" 200 200 200 400 200 1
      200 200 200 320 359] ring(1-3) ex ring_roots(1)
  have a: "\<not> isInside_ieee outer_ring (Finite 400) (Finite 200)" by blast
  from isInside_ieee_strict [of outer_ring "Finite 399" "Finite 200" 200 200 200 399 200 1
      200 200 200 320 359] ring(1-3) ex ring_roots(2) one
  have b: "isInside_ieee outer_ring (Finite 399) (Finite 200)" by blast
  from isInside_ieee_strict [of outer_ring "Finite 401" "Finite 200" 200 200 200 401 200 1
      200 200 200 320 359] ring(1-3) ex ring_roots(3) one
  have c: "\<not> isInside_ieee outer_ring (Finite 401) (Finite 200)" by blast
  from isInside_ieee_strict [of point_ring "Finite 200" "Finite 200" 200 200 200 400 200 1
      200 200 200 320 359] ring(4)
  have d: "\<not> isInside_ieee point_ring (Finite 200) (Finite 200)" by blast
  from isInside_ieee_strict [of outer_ring "Finite 400" "Finite 200" 200 200 200 400 200 1
      200 200 200 320 359] ring(5-7) bounds
  have e: "isInside_ieee outer_ring (Finite (of_int 320)) (Finite (of_int 359))" by blast
  from a b c d e show ?thesis by blast
qed



text \<open>
  Claim C2. The \<open>mousedown\<close> handler scans the circles from the last position to the
  first and makes the first circle that contains the cursor the active one. So the
  circle at the highest position among those that contain the cursor is selected and
  dragging starts; whenever some circle contains the cursor, the selected circle
  contains it too and is at no lower position. When no circle contains the cursor the
  state does not change, so a controller that is not dragging stays so.
\<close>

theorem mousedown_selects_innermost:
  "(k < length (circles s) \<and> isInside (circles s ! k) px py \<and>
    (\<forall>m. k < m \<and> m < length (circles s) \<longrightarrow> \<not> isInside (circles s ! m) px py) \<longrightarrow>
      mousedown s px py = s\<lparr>activeCircle := Some k, isDragging := True\<rparr>) \<and>
   (j < length (circles s) \<and> isInside (circles s ! j) px py \<longrightarrow>
      (\<exists>k. j \<le> k \<and> k < length (circles s) \<and> isInside (circles s ! k) px py \<and>
           mousedown s px py = s\<lparr>activeCircle := Some k, isDragging := True\<rparr>)) \<and>
   ((\<forall>i < length (circles s). \<not> isInside (circles s ! i) px py) \<longrightarrow> mousedown s px py = s)"
proof (intro conjI impI)
  assume "k < length (circles s) \<and> isInside (circles s ! k) px py \<and>
    (\<forall>m. k < m \<and> m < length (circles s) \<longrightarrow> \<not> isInside (circles s ! m) px py)"
  then show "mousedown s px py = s\<lparr>activeCircle := Some k, isDragging := True\<rparr>"
    by (intro mousedown_innermost) auto
next
  assume hit: "j < length (circles s) \<and> isInside (circles s ! j) px py"
  then obtain k where k: "j \<le> k" "k < length (circles s)" "isInside (circles s ! k) px py"
    "\<forall>m. k < m \<and> m < length (circles s) \<longrightarrow> \<not> isInside (circles s ! m) px py"
    using innermost_exists [of j "length (circles s)" "\<lambda>i. isInside (circles s ! i) px py"]
    by blast
  from mousedown_innermost [OF k(2,3,4)] k(1,2,3)
  show "\<exists>k. j \<le> k \<and> k < length (circles s) \<and> isInside (circles s ! k) px py \<and>
           mousedown s px py = s\<lparr>activeCircle := Some k, isDragging := True\<rparr>"
    by blast
next
  assume "\<forall>i < length (circles s). \<not> isInside (circles s ! i) px py"
  then show "mousedown s px py = s" by (rule mousedown_miss)
qed

theorem mousedown_selects_innermost_witness:
  "isInside (circles demo ! 0) 200 200 \<and> isInside (circles demo ! 4) 200 200 \<and>
   mousedown demo 200 200 = demo\<lparr>activeCircle := Some 4, isDragging := True\<rparr> \<and>
   (\<exists>k. 0 \<le> k \<and> k < length (circles demo) \<and> isInside (circles demo ! k) 200 200 \<and>
        mousedown demo 200 200 = demo\<lparr>activeCircle := Some k, isDragging := True\<rparr>) \<and>
   mousedown demo 500 500 = demo"
proof -
  have top: "\<forall>m. 4 < m \<and> m < length (circles demo) \<longrightarrow> \<not> isInside (circles demo ! m) 200 200"
    by (auto simp: demo_length)
  have len: "0 < length (circles demo)" "4 < length (circles demo)"
    by (simp_all add: demo_length)
  note centre = mousedown_selects_innermost [of 4 demo 200 200 0]
  note far = mousedown_selects_innermost [of 4 demo 500 500 0]
  from centre demo_centre_hits top len
  have "mousedown demo 200 200 = demo\<lparr>activeCircle := Some 4, isDragging := True\<rparr>"
    by blast
  moreover from centre demo_centre_hits len
  have "\<exists>k. 0 \<le> k \<and> k < length (circles demo) \<and> isInside (circles demo ! k) 200 200 \<and>
        mousedown demo 200 200 = demo\<lparr>activeCircle := Some k, isDragging := True\<rparr>"
    by blast
  moreover from far demo_misses have "mousedown demo 500 500 = demo"
    by blast
  ultimately show ?thesis using demo_centre_hits by blast
qed

text \<open>
  Claim C4, as stated, gives the circle at position \<open>i\<close> the radius
  \<open>maxRadius - i * radiusStep\<close> and radii that strictly decrease. The constructor
  subtracts the step from the radius once for every circle, and each subtraction rounds:
  for 400 by 400 and six circles the circle at position \<open>3\<close> has a radius just below
  \<open>100\<close>, where the formula gives \<open>100\<close> in exact and in double arithmetic. The
  constructor does not check its arguments either: on a canvas of width \<open>0\<close> both
  circles of \<open>flat_ieee\<close> have radius \<open>0\<close>.
\<close>

theorem construction_layout_ieee_counterexample:
  "radius (circles six_ieee ! 3) = Finite (3518437208883199 / 2 ^ 45) \<and>
   fsub (Finite 200) (fmul (Finite 3) (fdiv (Finite 200) (Finite 6))) = Finite 100 \<and>
   200 - 3 * (200 / 6) = (100 :: real) \<and>
   3518437208883199 / 2 ^ 45 < (100 :: real) \<and>
   map radius (circles flat_ieee) = [Finite 0, Finite 0] \<and>
   \<not> flt (Finite 0) (Finite 0)"
proof -
  have "fsub (Finite 200) (fmul (Finite 3) (fdiv (Finite 200) (Finite 6))) = Finite 100"
    using round64_step6 round64_three_steps by (simp add: round64_numeral)
  with six_radius_3 flat_ieee_circles show ?thesis by simp
qed

text \<open>
  Claim C4, amended. A construction with \<open>n \<ge> 1\<close> circles creates exactly \<open>n\<close> circles,
  all with the centre of the canvas as centre and with the image. With
  \<open>maxRadius = min (canvas width, canvas height, image width, image height) / 2\<close> and
  \<open>radiusDiff = maxRadius / n\<close> as the source computes them, circle \<open>0\<close> has radius
  \<open>maxRadius\<close> and every further circle the radius of the one before less
  \<open>radiusDiff\<close>, in double arithmetic. When every \<open>maxRadius - i * radiusDiff\<close> for
  \<open>i < n\<close> is a double, the circle at position \<open>i\<close> has that radius, and with a positive
  \<open>radiusDiff\<close> the radii then strictly decrease with the position. Whatever the
  roundings, the radii strictly decrease with the position when \<open>maxRadius\<close> is finite,
  at least \<open>1 / 2\<close> (as for positive dimensions in whole pixels) and at most
  \<open>2 ^ 1000\<close>, and \<open>n\<close> is at most \<open>2 ^ 50\<close>. For a canvas and an image of 400 by 400
  and five circles the radii are \<open>200, 160, 120, 80, 40\<close> and every centre is
  \<open>(200, 200)\<close>.
\<close>

theorem construction_layout_ieee:
  assumes "1 \<le> n"
    and "cs = circles (new_PuzzleController_ieee pc img n rnd)"
    and "maxRadius =
      fdiv (fmin (fmin (fmin (getWidth pc) (getHeight pc)) (width img)) (height img)) (Finite 2)"
    and "radiusDiff = fdiv maxRadius (Finite (real n))"
  shows
    "length cs = n \<and>
     (\<forall>i < n. x (cs ! i) = fdiv (getWidth pc) (Finite 2) \<and>
              y (cs ! i) = fdiv (getHeight pc) (Finite 2) \<and> image_ref (cs ! i) = img) \<and>
     radius (cs ! 0) = maxRadius \<and>
     (\<forall>i. Suc i < n \<longrightarrow> radius (cs ! Suc i) = fsub (radius (cs ! i)) radiusDiff) \<and>
     (maxRadius = Finite M \<and> radiusDiff = Finite D \<and> (\<forall>i < n. exact (M - real i * D)) \<longrightarrow>
        (\<forall>i < n. radius (cs ! i) = Finite (M - real i * D)) \<and>
        (0 < D \<longrightarrow> (\<forall>i j. i < j \<and> j < n \<longrightarrow> flt (radius (cs ! j)) (radius (cs ! i))))) \<and>
     (maxRadius = Finite M \<and> 1 / 2 \<le> M \<and> M \<le> 2 ^ 1000 \<and> n \<le> 2 ^ 50 \<longrightarrow>
        (\<forall>i j. i < j \<and> j < n \<longrightarrow> flt (radius (cs ! j)) (radius (cs ! i)))) \<and>
     (getWidth pc = Finite 400 \<and> getHeight pc = Finite 400 \<and> width img = Finite 400 \<and>
      height img = Finite 400 \<and> n = 5 \<longrightarrow>
        map radius cs = [Finite 200, Finite 160, Finite 120, Finite 80, Finite 40] \<and>
        map x cs = [Finite 200, Finite 200, Finite 200, Finite 200, Finite 200] \<and>
        map y cs = [Finite 200, Finite 200, Finite 200, Finite 200, Finite 200])"
proof -
  let ?step = "\<lambda>v. fsub v radiusDiff"
  have cs: "cs = map (\<lambda>k. \<lparr>x = fdiv (getWidth pc) (Finite 2), y = fdiv (getHeight pc) (Finite 2),
               radius = (?step ^^ k) maxRadius,
               image_ref = img, rotation = fmul (rnd k) FULL_ROTATION_ieee\<rparr>) [0..<n]"
    unfolding assms(2,3,4) by (rule circles_new_ieee)
  have len: "length cs = n" by (simp add: cs)
  have nth: "cs ! i = \<lparr>x = fdiv (getWidth pc) (Finite 2), y = fdiv (getHeight pc) (Finite 2),
               radius = (?step ^^ i) maxRadius,
               image_ref = img, rotation = fmul (rnd i) FULL_ROTATION_ieee\<rparr>" if "i < n" for i
    using that by (simp add: cs)
  have centre: "x (cs ! i) = fdiv (getWidth pc) (Finite 2) \<and>
      y (cs ! i) = fdiv (getHeight pc) (Finite 2) \<and> image_ref (cs ! i) = img" if "i < n" for i
    using that by (simp add: nth)
  have first: "radius (cs ! 0) = maxRadius"
    using assms(1) by (simp add: nth)
  have next_radius: "radius (cs ! Suc i) = fsub (radius (cs ! i)) radiusDiff" if "Suc i < n" for i
    using that by (simp add: nth)
  have closed: "radius (cs ! i) = Finite (M - real i * D)"
    if "maxRadius = Finite M" "radiusDiff = Finite D" "\<forall>i < n. exact (M - real i * D)" "i < n"
    for i
  proof -
    from that(3,4) have "\<forall>k \<le> i. exact (M - real k * D)" by auto
    then have "((\<lambda>v. fsub v (Finite D)) ^^ i) (Finite M) = Finite (M - real i * D)"
      by (rule repeated_fsub_exact)
    with that show ?thesis by (simp add: nth)
  qed
  have decreasing: "flt (radius (cs ! j)) (radius (cs ! i))"
    if "maxRadius = Finite M" "radiusDiff = Finite D" "\<forall>i < n. exact (M - real i * D)"
      "0 < D" "i < j" "j < n" for i j
  proof -
    from that(5) have "real i * D < real j * D"
      using that(4) by (intro mult_strict_right_mono) simp_all
    moreover from that have "i < n" by simp
    ultimately show ?thesis
      using closed [OF that(1,2,3)] that(6) by simp
  qed
  have robust: "flt (radius (cs ! j)) (radius (cs ! i))"
    if "maxRadius = Finite M" "1 / 2 \<le> M" "M \<le> 2 ^ 1000" "n \<le> 2 ^ 50" "i < j" "j < n" for i j
  proof -
    from that(5,6) have "i < n" by simp
    have "flt ((?step ^^ j) maxRadius) ((?step ^^ i) maxRadius)"
      unfolding assms(4) that(1) by (rule repeated_fsub_decreasing [OF that(2-6)])
    with \<open>i < n\<close> that(6) show ?thesis by (simp add: nth)
  qed
  have example: "map radius cs = [Finite 200, Finite 160, Finite 120, Finite 80, Finite 40] \<and>
      map x cs = [Finite 200, Finite 200, Finite 200, Finite 200, Finite 200] \<and>
      map y cs = [Finite 200, Finite 200, Finite 200, Finite 200, Finite 200]"
    if "getWidth pc = Finite 400" "getHeight pc = Finite 400" "width img = Finite 400"
      "height img = Finite 400" "n = 5"
  proof -
    have m: "maxRadius = Finite 200"
      using that(1-4) by (simp add: assms(3) round64_numeral)
    have d: "radiusDiff = Finite 40"
      using that(5) by (simp add: assms(4) m round64_numeral)
    have c: "fdiv (getWidth pc) (Finite 2) = Finite 200" "fdiv (getHeight pc) (Finite 2) = Finite 200"
      using that(1,2) by (simp_all add: round64_numeral)
    show ?thesis
      unfolding cs by (simp add: that(5) upt_5 m d c eval_nat_numeral round64_numeral)
  qed
  from len centre first next_radius closed decreasing robust example show ?thesis
    by (intro conjI allI impI) blast+
qed

theorem construction_layout_ieee_witness:
  "(1 :: nat) \<le> 5 \<and>
   length (circles demo_ieee) = 5 \<and>
   x (circles demo_ieee ! 2) = Finite 200 \<and> y (circles demo_ieee ! 2) = Finite 200 \<and>
   radius (circles demo_ieee ! 0) = Finite 200 \<and>
   radius (circles demo_ieee ! 1) = fsub (radius (circles demo_ieee ! 0)) (Finite 40) \<and>
   radius (circles demo_ieee ! 4) = Finite (200 - real 4 * 40) \<and>
   flt (radius (circles demo_ieee ! 3)) (radius (circles demo_ieee ! 1)) \<and>
   map radius (circles demo_ieee) = [Finite 200, Finite 160, Finite 120, Finite 80, Finite 40] \<and>
   flt (radius (circles six_ieee ! 3)) (radius (circles six_ieee ! 2))"
proof -
  have n: "(1 :: nat) \<le> 5" by simp
  have dims: "getWidth demo_canvas_ieee = Finite 400" "getHeight demo_canvas_ieee = Finite 400"
    "width demo_image_ieee = Finite 400" "height demo_image_ieee = Finite 400"
    by (simp_all add: getWidth_def getHeight_def demo_canvas_ieee_def demo_image_ieee_def)
  have m: "fdiv (fmin (fmin (fmin (getWidth demo_canvas_ieee) (getHeight demo_canvas_ieee))
      (width demo_image_ieee)) (height demo_image_ieee)) (Finite 2) = Finite 200"
    by (simp add: dims round64_numeral)
  have d: "fdiv (Finite 200) (Finite (real 5)) = Finite 40"
    by (simp add: round64_numeral)
  have c: "fdiv (Finite 400) (Finite 2) = Finite 200"
    by (simp add: round64_numeral)
  have "exact (200 - real i * 40)" if "i < 5" for i :: nat
  proof -
    from that have "i = 0 \<or> i = 1 \<or> i = 2 \<or> i = 3 \<or> i = 4" by auto
    then show ?thesis by (auto simp: exact_numeral)
  qed
  then have ex: "\<forall>i < 5. exact (200 - real i * 40)" by blast
  note layout = construction_layout_ieee [OF n refl refl refl, of demo_canvas_ieee
      demo_image_ieee no_scramble_ieee 200 40, folded demo_ieee_def, unfolded m dims]
  from layout ex d c have
    "length (circles demo_ieee) = 5"
    "x (circles demo_ieee ! 2) = Finite 200 \<and> y (circles demo_ieee ! 2) = Finite 200"
    "radius (circles demo_ieee ! 0) = Finite 200"
    "radius (circles demo_ieee ! Suc 0) = fsub (radius (circles demo_ieee ! 0)) (Finite 40)"
    "radius (circles demo_ieee ! 4) = Finite (200 - real 4 * 40)"
    "radius (circles demo_ieee ! 3) = Finite (200 - real 3 * 40)"
    "radius (circles demo_ieee ! 1) = Finite (200 - real 1 * 40)"
    "map radius (circles demo_ieee) = [Finite 200, Finite 160, Finite 120, Finite 80, Finite 40]"
    by (simp_all add: round64_numeral)
  moreover have "(1 :: nat) \<le> 6" by simp
  note six = construction_layout_ieee [OF this refl refl refl, of demo_canvas_ieee
      demo_image_ieee no_scramble_ieee 200, folded six_ieee_def, unfolded m]
  have "flt (radius (circles six_ieee ! 3)) (radius (circles six_ieee ! 2))"
    using six by simp
  ultimately show ?thesis by (simp add: round64_numeral)
qed

text \<open>
  Claim C5. The first \<open>mousemove\<close> after a \<open>mousedown\<close> changes no rotation and only
  caches its \<open>x\<close> coordinate; the comment of the source on that branch says the same.
  The handler takes that branch when no cursor position is cached, and \<open>mousedown\<close> does
  not clear the cache. So after a \<open>mousedown\<close> that arrives during a drag the first move
  rotates: in the puzzle \<open>demo\<close>, after a press at \<open>(10, 200)\<close> and a move to
  \<open>(100, 300)\<close>, a second press at the centre selects circle \<open>4\<close> with \<open>x = 100\<close> still
  cached, and the move to \<open>(75, 300)\<close> that follows turns circle \<open>4\<close> from \<open>0\<close> to
  \<open>1 / 2\<close>.
\<close>

theorem first_move_after_second_down:
  "run demo [MouseDown 10 200, MouseMove 100 300] = dragging \<and>
   isDragging dragging \<and>
   run demo [MouseDown 10 200, MouseMove 100 300, MouseDown 200 200] =
     dragging\<lparr>activeCircle := Some 4\<rparr> \<and>
   lastCursorX (run demo [MouseDown 10 200, MouseMove 100 300, MouseDown 200 200]) = Some 100 \<and>
   rotation (circles (run demo [MouseDown 10 200, MouseMove 100 300, MouseDown 200 200]) ! 4) = 0 \<and>
   rotation (circles (run demo [MouseDown 10 200, MouseMove 100 300, MouseDown 200 200,
     MouseMove 75 300]) ! 4) = 1 / 2"
proof -
  let ?s = "dragging\<lparr>activeCircle := Some 4\<rparr>"
  have two: "run demo [MouseDown 10 200, MouseMove 100 300] = dragging"
    by (simp add: dragging_def)
  have "run demo [MouseDown 10 200, MouseMove 100 300, MouseDown 200 200] =
      dispatch (run demo [MouseDown 10 200, MouseMove 100 300]) (MouseDown 200 200)"
    using run_snoc [of demo "[MouseDown 10 200, MouseMove 100 300]" "MouseDown 200 200"]
    by simp
  then have three: "run demo [MouseDown 10 200, MouseMove 100 300, MouseDown 200 200] = ?s"
    by (simp only: two dispatch.simps dragging_hits_centre)
  have s: "isDragging ?s" "lastCursorX ?s = Some 100" "activeCircle ?s = Some 4"
    "4 < length (circles ?s)"
    by (simp_all add: dragging_fields demo_length)
  have before: "rotation (circles ?s ! 4) = 0" and centre: "y (circles ?s ! 4) = 200"
    by (simp_all add: dragging_fields demo_circles)
  have "mousemove ?s 75 300 = Inr ((turned ?s 4 (1 / 2))\<lparr>lastCursorX := Some 75\<rparr>)"
    using mousemove_drag [OF s, of 75 300] centre by (simp add: ROTATION_SPEED_def)
  then have "dispatch ?s (MouseMove 75 300) = (turned ?s 4 (1 / 2))\<lparr>lastCursorX := Some 75\<rparr>"
    by simp
  moreover have "run demo [MouseDown 10 200, MouseMove 100 300, MouseDown 200 200,
      MouseMove 75 300] = dispatch ?s (MouseMove 75 300)"
    using run_snoc [of demo "[MouseDown 10 200, MouseMove 100 300, MouseDown 200 200]"
        "MouseMove 75 300"] three by simp
  ultimately have "rotation (circles (run demo [MouseDown 10 200, MouseMove 100 300,
      MouseDown 200 200, MouseMove 75 300]) ! 4) = 1 / 2"
    using s(4) before by simp
  with two three s before show ?thesis by (simp add: dragging_fields)
qed

text \<open>
  Claim C6. From any state \<open>mouseup\<close> ends dragging and clears the cached cursor
  position, and it changes no circle. So after a \<open>mouseup\<close> and any further events
  among which there is no \<open>mousedown\<close>, a \<open>mousemove\<close> returns the state unchanged and
  every circle is as it was before the \<open>mouseup\<close>.
\<close>

theorem mouseup_resets:
  "isDragging (mouseup s) = False \<and> lastCursorX (mouseup s) = None \<and>
   circles (mouseup s) = circles s \<and>
   ((\<forall>e \<in> set evs. \<not> is_down e) \<longrightarrow>
      mousemove (run (mouseup s) evs) cursorX cursorY = Inr (run (mouseup s) evs) \<and>
      circles (run (mouseup s) (evs @ [MouseMove cursorX cursorY])) = circles s)"
proof -
  have fields: "isDragging (mouseup s) = False" "lastCursorX (mouseup s) = None"
    "circles (mouseup s) = circles s"
    by (simp_all add: mouseup_def)
  have later: "mousemove (run (mouseup s) evs) cursorX cursorY = Inr (run (mouseup s) evs) \<and>
      circles (run (mouseup s) (evs @ [MouseMove cursorX cursorY])) = circles s"
    if "\<forall>e \<in> set evs. \<not> is_down e"
  proof -
    from that have same: "run (mouseup s) evs = mouseup s" by (rule run_no_down)
    have "mousemove (mouseup s) cursorX cursorY = Inr (mouseup s)"
      by (rule mousemove_idle) (simp add: fields)
    with same fields show ?thesis by (simp add: run_snoc)
  qed
  from fields later show ?thesis by blast
qed

theorem mouseup_resets_witness:
  "isDragging (mouseup dragging) = False \<and> lastCursorX (mouseup dragging) = None \<and>
   \<not> is_down (MouseMove 80 300) \<and> \<not> is_down MouseUp \<and>
   mousemove (run (mouseup dragging) [MouseMove 80 300, MouseUp]) 60 300 =
     Inr (run (mouseup dragging) [MouseMove 80 300, MouseUp]) \<and>
   circles (run (mouseup dragging) ([MouseMove 80 300, MouseUp] @ [MouseMove 60 300])) =
     circles dragging"
proof -
  have h: "\<forall>e \<in> set [MouseMove 80 300, MouseUp]. \<not> is_down e" by simp
  from mouseup_resets [of dragging "[MouseMove 80 300, MouseUp]" 60 300] h
  show ?thesis by simp
qed

text \<open>
  Claim C7, as stated, makes two calls of \<open>rotateCircle\<close> with \<open>d1\<close> and \<open>d2\<close> equal to
  one call with \<open>d1 + d2\<close>, and to the two calls in the other order. The source adds
  doubles, and every addition rounds. From rotation \<^verbatim>\<open>0.1\<close>, the calls with \<^verbatim>\<open>0.2\<close> and
  \<^verbatim>\<open>0.3\<close> end at \<^verbatim>\<open>0.6000000000000001\<close>, the one call with their sum \<^verbatim>\<open>0.5\<close> at
  \<^verbatim>\<open>0.6\<close>; from rotation \<^verbatim>\<open>0.2\<close>, the calls with \<^verbatim>\<open>0.1\<close> and \<^verbatim>\<open>0.3\<close> end at
  \<^verbatim>\<open>0.6000000000000001\<close> and the calls with \<^verbatim>\<open>0.3\<close> and \<^verbatim>\<open>0.1\<close> at \<^verbatim>\<open>0.6\<close>.
\<close>

theorem rotateCircle_ieee_accumulates_counterexample:
  "rotate_twice_ieee turned_tenth (Some 0) (Finite fifth) (Finite three_tenths) =
     Inr (turned_tenth\<lparr>circles := (circles turned_tenth)[0 := (circles turned_tenth ! 0)
            \<lparr>rotation := Finite (1351079888211149 / 2 ^ 51)\<rparr>]\<rparr>) \<and>
   fadd (Finite fifth) (Finite three_tenths) = Finite (1 / 2) \<and>
   rotateCircle_ieee turned_tenth (Some 0) (fadd (Finite fifth) (Finite three_tenths)) =
     Inr (turned_tenth\<lparr>circles := (circles turned_tenth)[0 := (circles turned_tenth ! 0)
            \<lparr>rotation := Finite (5404319552844595 / 2 ^ 53)\<rparr>]\<rparr>) \<and>
   rotate_twice_ieee turned_tenth (Some 0) (Finite fifth) (Finite three_tenths) \<noteq>
     rotateCircle_ieee turned_tenth (Some 0) (fadd (Finite fifth) (Finite three_tenths)) \<and>
   rotate_twice_ieee turned_fifth (Some 0) (Finite tenth) (Finite three_tenths) =
     Inr (turned_fifth\<lparr>circles := (circles turned_fifth)[0 := (circles turned_fifth ! 0)
            \<lparr>rotation := Finite (1351079888211149 / 2 ^ 51)\<rparr>]\<rparr>) \<and>
   rotate_twice_ieee turned_fifth (Some 0) (Finite three_tenths) (Finite tenth) =
     Inr (turned_fifth\<lparr>circles := (circles turned_fifth)[0 := (circles turned_fifth ! 0)
            \<lparr>rotation := Finite (5404319552844595 / 2 ^ 53)\<rparr>]\<rparr>) \<and>
   rotate_twice_ieee turned_fifth (Some 0) (Finite tenth) (Finite three_tenths) \<noteq>
     rotate_twice_ieee turned_fifth (Some 0) (Finite three_tenths) (Finite tenth)"
proof -
  have len: "0 < length (circles turned_tenth)" "0 < length (circles turned_fifth)"
    by (simp_all add: turned_fields)
  have apart: "(1351079888211149 / 2 ^ 51 :: real) \<noteq> 5404319552844595 / 2 ^ 53" by simp
  have sums: "round64 (tenth + fifth) = Finite (1351079888211149 / 2 ^ 52)"
    "round64 (fifth + tenth) = Finite (1351079888211149 / 2 ^ 52)"
    "round64 (three_tenths + fifth) = Finite (1 / 2)"
    "round64 (fifth + three_tenths) = Finite (1 / 2)"
    "round64 (1 / 2 + tenth) = Finite (5404319552844595 / 2 ^ 53)"
    using round64_03 round64_05 round64_06' by (simp_all add: add.commute)
  have half: "fadd (Finite fifth) (Finite three_tenths) = Finite (1 / 2)"
    by (simp add: sums)
  have t1: "rotate_twice_ieee turned_tenth (Some 0) (Finite fifth) (Finite three_tenths) =
     Inr (turned_tenth\<lparr>circles := (circles turned_tenth)[0 := (circles turned_tenth ! 0)
            \<lparr>rotation := Finite (1351079888211149 / 2 ^ 51)\<rparr>]\<rparr>)"
    using round64_06 by (simp add: rotate_twice_ieee_Some [OF len(1)] turned_fields sums)
  have t2: "rotateCircle_ieee turned_tenth (Some 0) (fadd (Finite fifth) (Finite three_tenths)) =
     Inr (turned_tenth\<lparr>circles := (circles turned_tenth)[0 := (circles turned_tenth ! 0)
            \<lparr>rotation := Finite (5404319552844595 / 2 ^ 53)\<rparr>]\<rparr>)"
    unfolding half using round64_06'
    by (simp add: rotateCircle_ieee_Some [OF len(1)] turned_fields)
  have t3: "rotate_twice_ieee turned_fifth (Some 0) (Finite tenth) (Finite three_tenths) =
     Inr (turned_fifth\<lparr>circles := (circles turned_fifth)[0 := (circles turned_fifth ! 0)
            \<lparr>rotation := Finite (1351079888211149 / 2 ^ 51)\<rparr>]\<rparr>)"
    using round64_06 by (simp add: rotate_twice_ieee_Some [OF len(2)] turned_fields sums)
  have t4: "rotate_twice_ieee turned_fifth (Some 0) (Finite three_tenths) (Finite tenth) =
     Inr (turned_fifth\<lparr>circles := (circles turned_fifth)[0 := (circles turned_fifth ! 0)
            \<lparr>rotation := Finite (5404319552844595 / 2 ^ 53)\<rparr>]\<rparr>)"
    by (simp add: rotate_twice_ieee_Some [OF len(2)] turned_fields sums)
  from t1 t2 rotated_apart [OF len(1) apart, of turned_tenth]
  have d1: "rotate_twice_ieee turned_tenth (Some 0) (Finite fifth) (Finite three_tenths) \<noteq>
     rotateCircle_ieee turned_tenth (Some 0) (fadd (Finite fifth) (Finite three_tenths))"
    by simp
  from t3 t4 rotated_apart [OF len(2) apart, of turned_fifth]
  have d2: "rotate_twice_ieee turned_fifth (Some 0) (Finite tenth) (Finite three_tenths) \<noteq>
     rotate_twice_ieee turned_fifth (Some 0) (Finite three_tenths) (Finite tenth)"
    by simp
  from t1 half t2 d1 t3 t4 d2 show ?thesis by blast
qed

text \<open>
  Claim C7, amended. \<open>rotateCircle\<close> adds its argument to the rotation in double
  arithmetic and reduces nothing modulo a full turn: after two calls with \<open>d1\<close> and
  \<open>d2\<close> a circle at rotation \<open>r\<close> is at \<open>(r + d1) + d2\<close>, each sum rounded. When the sums
  \<open>r + d1\<close>, \<open>r + d1 + d2\<close> and \<open>d1 + d2\<close> are doubles, that is the rotation
  \<open>r + d1 + d2\<close> and the result of one call with \<open>d1 + d2\<close>; when \<open>r + d1\<close>, \<open>r + d2\<close>
  and \<open>r + d1 + d2\<close> are doubles, it is the result of the two calls in the other order.
  A call on \<^verbatim>\<open>null\<close> throws.
\<close>

theorem rotateCircle_ieee_accumulates:
  "(a < length (circles s) \<longrightarrow>
      rotate_twice_ieee s (Some a) d1 d2 =
        Inr (s\<lparr>circles := (circles s)[a := (circles s ! a)
               \<lparr>rotation := fadd (fadd (rotation (circles s ! a)) d1) d2\<rparr>]\<rparr>)) \<and>
   (a < length (circles s) \<and> rotation (circles s ! a) = Finite r \<and>
    exact (r + e1) \<and> exact (r + e1 + e2) \<and> exact (e1 + e2) \<longrightarrow>
      rotate_twice_ieee s (Some a) (Finite e1) (Finite e2) =
        rotateCircle_ieee s (Some a) (fadd (Finite e1) (Finite e2)) \<and>
      rotate_twice_ieee s (Some a) (Finite e1) (Finite e2) =
        Inr (s\<lparr>circles := (circles s)[a := (circles s ! a)\<lparr>rotation := Finite (r + e1 + e2)\<rparr>]\<rparr>)) \<and>
   (a < length (circles s) \<and> rotation (circles s ! a) = Finite r \<and>
    exact (r + e1) \<and> exact (r + e2) \<and> exact (r + e1 + e2) \<longrightarrow>
      rotate_twice_ieee s (Some a) (Finite e1) (Finite e2) =
        rotate_twice_ieee s (Some a) (Finite e2) (Finite e1)) \<and>
   (deref s circle = None \<longrightarrow>
      rotateCircle_ieee s circle d1 = Inl TypeError \<and>
      rotate_twice_ieee s circle d1 d2 = Inl TypeError)"
proof (intro conjI impI)
  assume "a < length (circles s)"
  then show "rotate_twice_ieee s (Some a) d1 d2 =
        Inr (s\<lparr>circles := (circles s)[a := (circles s ! a)
               \<lparr>rotation := fadd (fadd (rotation (circles s ! a)) d1) d2\<rparr>]\<rparr>)"
    by (rule rotate_twice_ieee_Some)
next
  assume h: "a < length (circles s) \<and> rotation (circles s ! a) = Finite r \<and>
    exact (r + e1) \<and> exact (r + e1 + e2) \<and> exact (e1 + e2)"
  then have twice: "rotate_twice_ieee s (Some a) (Finite e1) (Finite e2) =
        Inr (s\<lparr>circles := (circles s)[a := (circles s ! a)\<lparr>rotation := Finite (r + e1 + e2)\<rparr>]\<rparr>)"
    by (simp add: rotate_twice_ieee_Some exact_def)
  from h have "rotateCircle_ieee s (Some a) (fadd (Finite e1) (Finite e2)) =
        Inr (s\<lparr>circles := (circles s)[a := (circles s ! a)\<lparr>rotation := Finite (r + e1 + e2)\<rparr>]\<rparr>)"
    by (simp add: rotateCircle_ieee_Some exact_def add.assoc)
  with twice show "rotate_twice_ieee s (Some a) (Finite e1) (Finite e2) =
        rotateCircle_ieee s (Some a) (fadd (Finite e1) (Finite e2))"
    by simp
  from twice show "rotate_twice_ieee s (Some a) (Finite e1) (Finite e2) =
        Inr (s\<lparr>circles := (circles s)[a := (circles s ! a)\<lparr>rotation := Finite (r + e1 + e2)\<rparr>]\<rparr>)" .
next
  assume h: "a < length (circles s) \<and> rotation (circles s ! a) = Finite r \<and>
    exact (r + e1) \<and> exact (r + e2) \<and> exact (r + e1 + e2)"
  then have "exact (r + e2 + e1)" by (simp add: add.commute add.left_commute)
  with h show "rotate_twice_ieee s (Some a) (Finite e1) (Finite e2) =
        rotate_twice_ieee s (Some a) (Finite e2) (Finite e1)"
    by (simp add: rotate_twice_ieee_Some exact_def add.commute add.left_commute)
next
  assume "deref s circle = None"
  then show "rotateCircle_ieee s circle d1 = Inl TypeError"
    and "rotate_twice_ieee s circle d1 d2 = Inl TypeError"
    using rotate_ieee_throws [of s circle d1 d2] by simp_all
qed

theorem rotateCircle_ieee_accumulates_witness:
  "0 < length (circles demo_ieee) \<and> rotation (circles demo_ieee ! 0) = Finite 0 \<and>
   exact (0 + 7) \<and> exact (0 + 1) \<and> exact (0 + 7 + 1) \<and> exact (7 + 1) \<and>
   rotate_twice_ieee demo_ieee (Some 0) (Finite 7) (Finite 1) =
     Inr (demo_ieee\<lparr>circles := (circles demo_ieee)[0 := (circles demo_ieee ! 0)
            \<lparr>rotation := Finite (0 + 7 + 1)\<rparr>]\<rparr>) \<and>
   rotate_twice_ieee demo_ieee (Some 0) (Finite 7) (Finite 1) =
     rotateCircle_ieee demo_ieee (Some 0) (fadd (Finite 7) (Finite 1)) \<and>
   rotate_twice_ieee demo_ieee (Some 0) (Finite 7) (Finite 1) =
     rotate_twice_ieee demo_ieee (Some 0) (Finite 1) (Finite 7) \<and>
   deref demo_ieee None = None \<and>
   rotate_twice_ieee demo_ieee None (Finite 7) (Finite 1) = Inl TypeError"
proof -
  have h: "0 < length (circles demo_ieee)" "rotation (circles demo_ieee ! 0) = Finite 0"
    "exact (0 + 7)" "exact (0 + 1)" "exact (0 + 7 + 1)" "exact (7 + 1)"
    "deref demo_ieee None = None"
    by (simp_all add: demo_ieee_length demo_ieee_rotation_0 exact_numeral deref_def)
  from rotateCircle_ieee_accumulates [of 0 demo_ieee "Finite 7" "Finite 1" 0 7 1 None] h
  show ?thesis by blast
qed

text \<open>
  Claim C8. Whatever \<open>mousedown\<close>, \<open>mousemove\<close> and \<open>mouseup\<close> events a controller
  processes, from the state the constructor built or from any other, it has the same
  number of circles afterwards, and each circle has its centre, its radius and its image
  as before: \<open>rotation\<close> is the only field of a circle that a handler writes.
\<close>

theorem rings_fixed:
  "length (circles (run s evs)) = length (circles s) \<and>
   map x (circles (run s evs)) = map x (circles s) \<and>
   map y (circles (run s evs)) = map y (circles s) \<and>
   map radius (circles (run s evs)) = map radius (circles s) \<and>
   map image_ref (circles (run s evs)) = map image_ref (circles s)"
proof -
  have g: "map geometry (circles (run s evs)) = map geometry (circles s)"
    by (rule run_geometry)
  have "map x cs = map fst (map geometry cs)" for cs
    by (simp add: geometry_def)
  moreover have "map y cs = map (fst \<circ> snd) (map geometry cs)" for cs
    by (simp add: geometry_def)
  moreover have "map radius cs = map (fst \<circ> snd \<circ> snd) (map geometry cs)" for cs
    by (simp add: geometry_def)
  moreover have "map image_ref cs = map (snd \<circ> snd \<circ> snd) (map geometry cs)" for cs
    by (simp add: geometry_def)
  moreover from g have "length (circles (run s evs)) = length (circles s)"
    by (rule map_eq_imp_length_eq)
  ultimately show ?thesis by (simp only: g)
qed

theorem rings_fixed_witness:
  "map radius (circles (run demo [MouseDown 10 200, MouseMove 100 300, MouseMove 80 300, MouseUp])) =
     [200, 160, 120, 80, 40] \<and>
   length (circles (run demo [MouseDown 10 200, MouseMove 100 300, MouseMove 80 300, MouseUp])) = 5"
  using rings_fixed [of demo "[MouseDown 10 200, MouseMove 100 300, MouseMove 80 300, MouseUp]"]
  by (simp add: demo_circles)

text \<open>
  Claim C9. A \<open>mousedown\<close> that arrives while a drag is in progress is not refused. When
  its cursor position is inside some circle, the active circle becomes the innermost
  circle that contains it, and nothing else changes: the controller is still dragging,
  the cached cursor position is kept, and no circle is changed. The handler cannot
  throw.
\<close>

theorem mousedown_while_dragging:
  assumes "isDragging s"
    and "k < length (circles s)" and "isInside (circles s ! k) px py"
    and "\<forall>m. k < m \<and> m < length (circles s) \<longrightarrow> \<not> isInside (circles s ! m) px py"
  shows "mousedown s px py = s\<lparr>activeCircle := Some k\<rparr> \<and>
         isDragging (mousedown s px py) \<and>
         activeCircle (mousedown s px py) = Some k \<and>
         lastCursorX (mousedown s px py) = lastCursorX s \<and>
         circles (mousedown s px py) = circles s"
proof -
  from mousedown_innermost [OF assms(2,3,4)] assms(1)
  have "mousedown s px py = s\<lparr>activeCircle := Some k\<rparr>" by simp
  with assms(1) show ?thesis by simp
qed

theorem mousedown_while_dragging_witness:
  "isDragging dragging \<and> activeCircle dragging = Some 0 \<and>
   isInside (circles dragging ! 4) 200 200 \<and>
   mousedown dragging 200 200 = dragging\<lparr>activeCircle := Some 4\<rparr> \<and>
   lastCursorX (mousedown dragging 200 200) = Some 100"
proof -
  have h: "isDragging dragging" "4 < length (circles dragging)"
    "isInside (circles dragging ! 4) 200 200"
    "\<forall>m. 4 < m \<and> m < length (circles dragging) \<longrightarrow> \<not> isInside (circles dragging ! m) 200 200"
    by (auto simp: dragging_fields demo_length demo_centre_hits)
  from mousedown_while_dragging [OF h] h dragging_fields show ?thesis by simp
qed

text \<open>
  Claim C10. The constructor builds a controller that is not dragging and has no cached
  cursor position; every handler preserves the property that a controller which is not
  dragging has no cached cursor position. So after any sequence of events, a controller
  that is not dragging has none, and it still has none after the \<open>mousedown\<close> that
  starts the next drag: no drag inherits the cursor position of an earlier one that
  ended with \<open>mouseup\<close>.
\<close>

theorem idle_has_no_baseline:
  "isDragging (new_PuzzleController pc img n rnd) = False \<and>
   lastCursorX (new_PuzzleController pc img n rnd) = None \<and>
   ((\<not> isDragging s \<longrightarrow> lastCursorX s = None) \<longrightarrow>
      (\<not> isDragging (dispatch s e) \<longrightarrow> lastCursorX (dispatch s e) = None)) \<and>
   (\<not> isDragging (run (new_PuzzleController pc img n rnd) evs) \<longrightarrow>
      lastCursorX (run (new_PuzzleController pc img n rnd) evs) = None \<and>
      lastCursorX (mousedown (run (new_PuzzleController pc img n rnd) evs) px py) = None)"
  using dispatch_idle_no_cache [of s e] run_new_idle_no_cache [of pc img n rnd evs]
  by (simp add: new_idle)

theorem idle_has_no_baseline_witness:
  "\<not> isDragging (run demo [MouseDown 10 200, MouseMove 100 300, MouseUp]) \<and>
   lastCursorX (run demo [MouseDown 10 200, MouseMove 100 300, MouseUp]) = None \<and>
   lastCursorX (mousedown (run demo [MouseDown 10 200, MouseMove 100 300, MouseUp]) 200 200) = None \<and>
   isDragging dragging \<and>
   \<not> isDragging (dispatch dragging MouseUp) \<and>
   lastCursorX (dispatch dragging MouseUp) = None"
proof -
  have h: "\<not> isDragging (run demo [MouseDown 10 200, MouseMove 100 300, MouseUp])"
    "isDragging dragging"
    "\<not> isDragging (dispatch dragging MouseUp)"
    by (simp_all add: drag_and_release mouseup_def dragging_fields)
  from idle_has_no_baseline [of demo_canvas demo_image 5 no_scramble dragging MouseUp
      "[MouseDown 10 200, MouseMove 100 300, MouseUp]" 200 200] h
  show ?thesis unfolding demo_def [symmetric] by blast
qed

end
